theory Spec2Isabelle
  imports Complex_Main "HOL-Library.Multiset" "HOL-Library.Log_Nat"
begin

section \<open>Exact ratios: Python's \<open>fractions.Fraction\<close>\<close>

text \<open>
  A \<open>Fraction\<close> is an exact rational kept in lowest terms with a positive denominator.
  It is modelled by the type \<^typ>\<open>rat\<close>; its attributes \<open>numerator\<close> and
  \<open>denominator\<close> are the two components of \<^const>\<open>quotient_of\<close>.
\<close>

definition numerator :: "rat \<Rightarrow> int" where
  "numerator r = fst (quotient_of r)"

definition denominator :: "rat \<Rightarrow> int" where
  "denominator r = snd (quotient_of r)"

section \<open>Python floats\<close>

text \<open>
  A Python \<open>float\<close> is an IEEE 754 binary64 number. A finite float is modelled by the
  rational number it denotes (the two zeros, which compare equal, are both \<open>0\<close>);
  the infinities and the not-a-number are separate values.
\<close>

datatype pyfloat = Finite rat | PInf | NInf | NaN

datatype py_error = OverflowError | ZeroDivisionError

text \<open>Rounding to the nearest integer, a tie going to the even neighbour.\<close>

definition round_half_even :: "rat \<Rightarrow> int" where
  "round_half_even x =
     (let f = \<lfloor>x\<rfloor>; d = x - of_int f
      in if d < 1 / 2 then f
         else if 1 / 2 < d then f + 1
         else if even f then f else f + 1)"

text \<open>For \<open>x > 0\<close>, the exponent \<open>e\<close> with \<open>2 powi e \<le> x < 2 powi (e + 1)\<close>.\<close>

definition floor_log2 :: "rat \<Rightarrow> int" where
  "floor_log2 x =
     (let k = bitlen (fst (quotient_of x)) - bitlen (snd (quotient_of x))
      in if 2 powi k \<le> x then k else k - 1)"

text \<open>
  The binary64 number nearest to a rational, ties to even: 53 significant bits above
  the exponent \<open>-1022\<close>, multiples of \<open>2 powi (-1074)\<close> below it. The exponent is not
  bounded above here; a result of magnitude \<open>2 ^ 1024\<close> or more is out of range.
\<close>

definition round_binary64 :: "rat \<Rightarrow> rat" where
  "round_binary64 x =
     (if x = 0 then 0
      else let e = max (floor_log2 \<bar>x\<bar>) (- 1022); q = 2 powi (e - 52)
           in of_int (round_half_even (x / q)) * q)"

text \<open>
  True division of two Python ints, \<open>n / d\<close>: the correctly rounded quotient, a finite
  float (given by its value), or an exception.
\<close>

definition int_true_div :: "int \<Rightarrow> int \<Rightarrow> py_error + rat" where
  "int_true_div n d =
     (if d = 0 then Inl ZeroDivisionError
      else let y = round_binary64 (of_int n / of_int d)
           in if 2 ^ 1024 \<le> \<bar>y\<bar> then Inl OverflowError else Inr y)"

text \<open>Conversion of a Python int to a float, which is used when an int meets a float.\<close>

definition int_to_float :: "int \<Rightarrow> py_error + rat" where
  "int_to_float n =
     (let y = round_binary64 (of_int n)
      in if 2 ^ 1024 \<le> \<bar>y\<bar> then Inl OverflowError else Inr y)"

text \<open>The float result of an operation whose exact value is \<open>x\<close>: overflow gives an infinity.\<close>

definition float_of_exact :: "rat \<Rightarrow> pyfloat" where
  "float_of_exact x =
     (let y = round_binary64 x
      in if 2 ^ 1024 \<le> y then PInf else if y \<le> - (2 ^ 1024) then NInf else Finite y)"

fun float_mul :: "pyfloat \<Rightarrow> pyfloat \<Rightarrow> pyfloat" where
  "float_mul NaN _ = NaN"
| "float_mul _ NaN = NaN"
| "float_mul (Finite a) (Finite b) = float_of_exact (a * b)"
| "float_mul (Finite a) PInf = (if a = 0 then NaN else if 0 < a then PInf else NInf)"
| "float_mul (Finite a) NInf = (if a = 0 then NaN else if 0 < a then NInf else PInf)"
| "float_mul PInf (Finite b) = (if b = 0 then NaN else if 0 < b then PInf else NInf)"
| "float_mul NInf (Finite b) = (if b = 0 then NaN else if 0 < b then NInf else PInf)"
| "float_mul PInf PInf = PInf"
| "float_mul PInf NInf = NInf"
| "float_mul NInf PInf = NInf"
| "float_mul NInf NInf = PInf"



section \<open>Python numbers\<close>

text \<open>
  The two configuration values are Python numbers: an \<open>int\<close> (unbounded), a
  \<open>Fraction\<close> or a \<open>float\<close>.
\<close>

datatype pynum = PyInt int | PyFraction rat | PyFloat pyfloat

text \<open>\<open>float(x)\<close>; for a \<open>Fraction\<close> it is \<open>numerator / denominator\<close>.\<close>

fun py_float :: "pynum \<Rightarrow> py_error + pyfloat" where
  "py_float (PyInt n) = (case int_to_float n of Inl e \<Rightarrow> Inl e | Inr y \<Rightarrow> Inr (Finite y))"
| "py_float (PyFraction q) =
     (case int_true_div (numerator q) (denominator q) of
        Inl e \<Rightarrow> Inl e | Inr y \<Rightarrow> Inr (Finite y))"
| "py_float (PyFloat f) = Inr f"

text \<open>
  \<open>x * y\<close>: exact among ints and Fractions; as soon as one operand is a float the other
  is converted to a float first.
\<close>

fun py_mul :: "pynum \<Rightarrow> pynum \<Rightarrow> py_error + pynum" where
  "py_mul (PyInt a) (PyInt b) = Inr (PyInt (a * b))"
| "py_mul (PyInt a) (PyFraction b) = Inr (PyFraction (of_int a * b))"
| "py_mul (PyFraction a) (PyInt b) = Inr (PyFraction (a * of_int b))"
| "py_mul (PyFraction a) (PyFraction b) = Inr (PyFraction (a * b))"
| "py_mul (PyFloat a) y =
     (case py_float y of Inl e \<Rightarrow> Inl e | Inr b \<Rightarrow> Inr (PyFloat (float_mul a b)))"
| "py_mul x (PyFloat b) =
     (case py_float x of Inl e \<Rightarrow> Inl e | Inr a \<Rightarrow> Inr (PyFloat (float_mul a b)))"


text \<open>A list comprehension or a key computation whose element function can raise.\<close>

fun map_result :: "('a \<Rightarrow> 'e + 'b) \<Rightarrow> 'a list \<Rightarrow> 'e + 'b list" where
  "map_result f [] = Inr []"
| "map_result f (x # xs) =
     (case f x of
        Inl e \<Rightarrow> Inl e
      | Inr y \<Rightarrow> (case map_result f xs of Inl e \<Rightarrow> Inl e | Inr ys \<Rightarrow> Inr (y # ys)))"

section \<open>The ratio generator\<close>

text \<open>
  \<^verbatim>\<open>
  def generate_ratios(self):
      ratios = [Fraction(1, 1)]
      fifth_ratio = Fraction(3, 2)
      for _ in range(1, 53):
          next_ratio = ratios[-1] * fifth_ratio
          while next_ratio >= 2:
              next_ratio /= 2
          ratios.append(next_ratio)
      return ratios
  \<close>
  \<open>genera_rapporti\<close> of \<open>SistemaPitagorico\<close> is the same code with Italian names.
\<close>

definition fifth_ratio :: rat where
  "fifth_ratio = Fract 3 2"

text \<open>The inner loop \<^verbatim>\<open>while next_ratio >= 2: next_ratio /= 2\<close>.\<close>

function reduce_octave :: "rat \<Rightarrow> rat" where
  "reduce_octave next_ratio =
     (if next_ratio \<ge> 2 then reduce_octave (next_ratio / 2) else next_ratio)"
  by pat_completeness auto
termination
proof (relation "measure (\<lambda>r. nat \<lfloor>r\<rfloor>)")
  show "wf (measure (\<lambda>r::rat. nat \<lfloor>r\<rfloor>))" by simp
next
  fix next_ratio :: rat
  assume h: "2 \<le> next_ratio"
  have "next_ratio / 2 \<le> next_ratio - 1" using h by simp
  then have "\<lfloor>next_ratio / 2\<rfloor> \<le> \<lfloor>next_ratio - 1\<rfloor>" by (rule floor_mono)
  moreover have "2 \<le> \<lfloor>next_ratio\<rfloor>" using h by (simp add: le_floor_iff)
  ultimately show "(next_ratio / 2, next_ratio) \<in> measure (\<lambda>r. nat \<lfloor>r\<rfloor>)"
    by simp
qed

declare reduce_octave.simps [simp del]

text \<open>How many times the body of that loop runs.\<close>

function reduce_octave_iterations :: "rat \<Rightarrow> nat" where
  "reduce_octave_iterations next_ratio =
     (if next_ratio \<ge> 2 then Suc (reduce_octave_iterations (next_ratio / 2)) else 0)"
  by pat_completeness auto
termination
proof (relation "measure (\<lambda>r. nat \<lfloor>r\<rfloor>)")
  show "wf (measure (\<lambda>r::rat. nat \<lfloor>r\<rfloor>))" by simp
next
  fix next_ratio :: rat
  assume h: "2 \<le> next_ratio"
  have "next_ratio / 2 \<le> next_ratio - 1" using h by simp
  then have "\<lfloor>next_ratio / 2\<rfloor> \<le> \<lfloor>next_ratio - 1\<rfloor>" by (rule floor_mono)
  moreover have "2 \<le> \<lfloor>next_ratio\<rfloor>" using h by (simp add: le_floor_iff)
  ultimately show "(next_ratio / 2, next_ratio) \<in> measure (\<lambda>r. nat \<lfloor>r\<rfloor>)"
    by simp
qed

declare reduce_octave_iterations.simps [simp del]

text \<open>
  The body of the \<open>for\<close> loop, run once for every element of the range; the list is
  never empty, so \<open>ratios[-1]\<close> is its last element.
\<close>

definition ratios_loop :: "nat list \<Rightarrow> rat list \<Rightarrow> rat list" where
  "ratios_loop rng ratios =
     fold (\<lambda>_ ratios. ratios @ [reduce_octave (last ratios * fifth_ratio)]) rng ratios"

definition generate_ratios :: "rat list" where
  "generate_ratios = ratios_loop [1..<53] [Fract 1 1]"

text \<open>The list held by the loop of \<open>generate_ratios\<close> after \<open>n\<close> rounds.\<close>

definition ratios_after :: "nat \<Rightarrow> rat list" where
  "ratios_after n = ratios_loop [1..<Suc n] [Fract 1 1]"

definition rapporti_loop :: "nat list \<Rightarrow> rat list \<Rightarrow> rat list" where
  "rapporti_loop rng rapporti =
     fold (\<lambda>_ rapporti. rapporti @ [reduce_octave (last rapporti * Fract 3 2)]) rng rapporti"

definition genera_rapporti :: "rat list" where
  "genera_rapporti = rapporti_loop [1..<53] [Fract 1 1]"

section \<open>The ratio sorter\<close>

text \<open>
  \<^verbatim>\<open>
  def sort_ratios(self):
      self.ratios.sort(key=lambda ratio: ratio.numerator / ratio.denominator)
  \<close>
  \<open>list.sort\<close> computes the key of every element first (an exception there leaves the
  sort undone) and then sorts stably by the keys, here finite floats.
\<close>

definition ratio_key :: "rat \<Rightarrow> py_error + rat" where
  "ratio_key ratio = int_true_div (numerator ratio) (denominator ratio)"

definition sort_ratios :: "rat list \<Rightarrow> py_error + rat list" where
  "sort_ratios ratios =
     (case map_result ratio_key ratios of
        Inl e \<Rightarrow> Inl e
      | Inr keys \<Rightarrow> Inr (map snd (sort_key fst (zip keys ratios))))"

definition ordina_rapporti :: "rat list \<Rightarrow> py_error + rat list" where
  "ordina_rapporti rapporti =
     (case map_result (\<lambda>rapporto. int_true_div (numerator rapporto) (denominator rapporto))
             rapporti of
        Inl e \<Rightarrow> Inl e
      | Inr keys \<Rightarrow> Inr (map snd (sort_key fst (zip keys rapporti))))"

section \<open>The frequency converter\<close>

text \<open>
  \<^verbatim>\<open>
  def calculate_frequencies(self):
      return [float(ratio * self.fundamental) for ratio in self.ratios]
  \<close>
\<close>

definition calculate_frequencies :: "pynum \<Rightarrow> rat list \<Rightarrow> py_error + pyfloat list" where
  "calculate_frequencies fundamental ratios =
     map_result
       (\<lambda>ratio. case py_mul (PyFraction ratio) fundamental of
                   Inl e \<Rightarrow> Inl e | Inr x \<Rightarrow> py_float x)
       ratios"

definition calcola_frequenze :: "pynum \<Rightarrow> rat list \<Rightarrow> py_error + pyfloat list" where
  "calcola_frequenze fondamentale rapporti =
     map_result
       (\<lambda>rapporto. case py_mul (PyFraction rapporto) fondamentale of
                      Inl e \<Rightarrow> Inl e | Inr x \<Rightarrow> py_float x)
       rapporti"

section \<open>The two classes\<close>

text \<open>
  \<^verbatim>\<open>
  def __init__(self, fundamental=100, octave=1):
      self.fundamental = fundamental * octave
      self.ratios = self.generate_ratios()
      self.sort_ratios()
      self.frequencies = self.calculate_frequencies()
  \<close>
  An exception raised by any of the four statements leaves the constructor.
\<close>

record pythagorean_system =
  fundamental :: pynum
  ratios :: "rat list"
  frequencies :: "pyfloat list"

definition PythagoreanSystem :: "pynum \<Rightarrow> pynum \<Rightarrow> py_error + pythagorean_system" where
  "PythagoreanSystem fundamental0 octave =
     (case py_mul fundamental0 octave of
        Inl e \<Rightarrow> Inl e
      | Inr f \<Rightarrow>
          (case sort_ratios generate_ratios of
             Inl e \<Rightarrow> Inl e
           | Inr rs \<Rightarrow>
               (case calculate_frequencies f rs of
                  Inl e \<Rightarrow> Inl e
                | Inr fs \<Rightarrow> Inr \<lparr>fundamental = f, ratios = rs, frequencies = fs\<rparr>)))"

text \<open>\<open>PythagoreanSystem()\<close>, with the defaults \<open>fundamental=100, octave=1\<close>.\<close>

definition PythagoreanSystem_default :: "py_error + pythagorean_system" where
  "PythagoreanSystem_default = PythagoreanSystem (PyInt 100) (PyInt 1)"

record sistema_pitagorico =
  fondamentale :: pynum
  rapporti :: "rat list"
  frequenze :: "pyfloat list"

definition SistemaPitagorico :: "pynum \<Rightarrow> pynum \<Rightarrow> py_error + sistema_pitagorico" where
  "SistemaPitagorico fondamentale0 ottava =
     (case py_mul fondamentale0 ottava of
        Inl e \<Rightarrow> Inl e
      | Inr f \<Rightarrow>
          (case ordina_rapporti genera_rapporti of
             Inl e \<Rightarrow> Inl e
           | Inr rs \<Rightarrow>
               (case calcola_frequenze f rs of
                  Inl e \<Rightarrow> Inl e
                | Inr fs \<Rightarrow> Inr \<lparr>fondamentale = f, rapporti = rs, frequenze = fs\<rparr>)))"

text \<open>\<open>SistemaPitagorico()\<close>, with the defaults \<open>fondamentale=32, ottava=2\<close>.\<close>

definition SistemaPitagorico_default :: "py_error + sistema_pitagorico" where
  "SistemaPitagorico_default = SistemaPitagorico (PyInt 32) (PyInt 2)"

text \<open>
  The list that \<open>sort_ratios\<close> leaves in place of the generated ratios (lemma
  \<open>sort_ratios_sorted_generated\<close>): they are sorted stably by their float keys.
\<close>

definition sorted_generated :: "rat list" where
  "sorted_generated = sort_key round_binary64 generate_ratios"

section \<open>Properties of the generator\<close>

lemma reduce_octave_range: "1 \<le> r \<Longrightarrow> 1 \<le> reduce_octave r \<and> reduce_octave r < 2"
proof (induction r rule: reduce_octave.induct)
  case (1 r)
  show ?case
  proof (cases "2 \<le> r")
    case True
    then have "1 \<le> r / 2" by simp
    with 1 True show ?thesis by (simp add: reduce_octave.simps [of r])
  next
    case False
    with 1 show ?thesis by (simp add: reduce_octave.simps [of r])
  qed
qed

lemma reduce_octave_iterations_eq:
  "reduce_octave r = r / 2 ^ reduce_octave_iterations r"
proof (induction r rule: reduce_octave.induct)
  case (1 r)
  show ?case
  proof (cases "2 \<le> r")
    case True
    with 1 show ?thesis
      by (simp add: reduce_octave.simps [of r] reduce_octave_iterations.simps [of r] field_simps)
  next
    case False
    then show ?thesis
      by (simp add: reduce_octave.simps [of r] reduce_octave_iterations.simps [of r])
  qed
qed

lemma reduce_octave_below_4:
  assumes "r < 4"
  shows "reduce_octave_iterations r \<le> 1"
proof (cases "2 \<le> r")
  case True
  have "\<not> 2 \<le> r / 2" using assms by simp
  then have "reduce_octave_iterations (r / 2) = 0"
    by (simp add: reduce_octave_iterations.simps [of "r / 2"])
  with True show ?thesis by (simp add: reduce_octave_iterations.simps [of r])
next
  case False
  then show ?thesis by (simp add: reduce_octave_iterations.simps [of r])
qed

lemma ratios_after_0: "ratios_after 0 = [1]"
  by (simp add: ratios_after_def ratios_loop_def One_rat_def)

lemma ratios_after_Suc:
  "ratios_after (Suc n) = ratios_after n @ [reduce_octave (last (ratios_after n) * fifth_ratio)]"
proof -
  have "[1..<Suc (Suc n)] = [1..<Suc n] @ [Suc n]" by simp
  then show ?thesis unfolding ratios_after_def ratios_loop_def by (simp only: fold_append) simp
qed

lemma generate_ratios_after: "generate_ratios = ratios_after 52"
proof -
  have "[1..<53] = [1..<Suc 52]" by simp
  then show ?thesis unfolding generate_ratios_def ratios_after_def by (simp only:)
qed

lemma ratios_after_length: "length (ratios_after n) = Suc n"
  by (induction n) (simp_all add: ratios_after_0 ratios_after_Suc)

lemma ratios_after_nth_stable:
  "k \<le> n \<Longrightarrow> n \<le> m \<Longrightarrow> ratios_after m ! k = ratios_after n ! k"
proof (induction m)
  case 0
  then show ?case by simp
next
  case (Suc m)
  show ?case
  proof (cases "n = Suc m")
    case True
    then show ?thesis by simp
  next
    case False
    with Suc have "n \<le> m" by simp
    with Suc show ?thesis by (simp add: ratios_after_Suc nth_append ratios_after_length)
  qed
qed

lemma ratios_after_last: "last (ratios_after n) = ratios_after n ! n"
proof -
  have "ratios_after n \<noteq> []"
    using ratios_after_length [of n] by auto
  then show ?thesis by (simp add: last_conv_nth ratios_after_length)
qed

lemma ratios_after_step:
  assumes "Suc k \<le> n"
  shows "ratios_after n ! Suc k = reduce_octave (ratios_after n ! k * fifth_ratio)"
proof -
  have "ratios_after n ! Suc k = ratios_after (Suc k) ! Suc k"
    using assms by (intro ratios_after_nth_stable) simp_all
  also have "\<dots> = reduce_octave (ratios_after k ! k * fifth_ratio)"
    by (simp add: ratios_after_Suc nth_append ratios_after_length ratios_after_last)
  also have "ratios_after k ! k = ratios_after n ! k"
    using assms by (intro ratios_after_nth_stable [symmetric]) simp_all
  finally show ?thesis .
qed

lemma generate_ratios_length: "length generate_ratios = 53"
  by (simp add: generate_ratios_after ratios_after_length)

lemma generate_ratios_first: "generate_ratios ! 0 = 1"
proof -
  have "ratios_after 52 ! 0 = ratios_after 0 ! 0"
    by (intro ratios_after_nth_stable) simp_all
  then show ?thesis by (simp add: generate_ratios_after ratios_after_0)
qed

lemma generate_ratios_step:
  assumes "k < 52"
  shows "generate_ratios ! Suc k = reduce_octave (generate_ratios ! k * fifth_ratio)"
proof -
  have "Suc k \<le> 52" using assms by simp
  then show ?thesis unfolding generate_ratios_after by (rule ratios_after_step)
qed

lemma generate_ratios_range:
  "k < 53 \<Longrightarrow> 1 \<le> generate_ratios ! k \<and> generate_ratios ! k < 2"
proof (induction k)
  case 0
  then show ?case by (simp add: generate_ratios_first)
next
  case (Suc k)
  then have k: "k < 52" and ih: "1 \<le> generate_ratios ! k" by simp_all
  have "1 \<le> generate_ratios ! k * fifth_ratio"
    using ih by (simp add: fifth_ratio_def Fract_of_int_quotient)
  then show ?case by (simp only: generate_ratios_step [OF k] reduce_octave_range)
qed

lemma generate_ratios_form:
  "k < 53 \<Longrightarrow> \<exists>m. generate_ratios ! k = 3 ^ k / 2 ^ m"
proof (induction k)
  case 0
  have "generate_ratios ! 0 = 3 ^ 0 / 2 ^ 0" by (simp add: generate_ratios_first)
  then show ?case by blast
next
  case (Suc k)
  then have k: "k < 52" by simp
  from Suc obtain m where m: "generate_ratios ! k = 3 ^ k / 2 ^ m" by auto
  let ?x = "generate_ratios ! k * fifth_ratio"
  have "generate_ratios ! Suc k = ?x / 2 ^ reduce_octave_iterations ?x"
    by (simp only: generate_ratios_step [OF k] reduce_octave_iterations_eq [symmetric])
  also have "\<dots> = 3 ^ Suc k / 2 ^ (Suc m + reduce_octave_iterations ?x)"
    by (simp add: m fifth_ratio_def Fract_of_int_quotient power_add)
  finally show ?case by blast
qed

lemma quotient_of_pow3_pow2:
  "quotient_of (3 ^ k / 2 ^ m) = (3 ^ k, 2 ^ m)"
proof -
  have c: "coprime (3 ^ k :: int) (2 ^ m)"
    by (rule coprime_power_left_iff [THEN iffD2], rule disjI1,
        rule coprime_power_right_iff [THEN iffD2]) simp
  have "(3 ^ k / 2 ^ m :: rat) = Fract (3 ^ k) (2 ^ m)"
    by (simp add: Fract_of_int_quotient)
  moreover have "quotient_of (Fract (3 ^ k) (2 ^ m)) = (3 ^ k, 2 ^ m)"
    by (rule quotient_of_Fract [THEN trans]) (simp add: normalize_stable c)
  ultimately show ?thesis by simp
qed

lemma genera_rapporti_eq: "genera_rapporti = generate_ratios"
  unfolding genera_rapporti_def generate_ratios_def rapporti_loop_def ratios_loop_def
    fifth_ratio_def by (rule refl)

lemma generate_ratios_quotient:
  assumes "k < 53"
  shows "\<exists>m. quotient_of (generate_ratios ! k) = (3 ^ k, 2 ^ m)"
proof -
  from generate_ratios_form [OF assms] obtain m where "generate_ratios ! k = 3 ^ k / 2 ^ m" ..
  then have "quotient_of (generate_ratios ! k) = (3 ^ k, 2 ^ m)"
    by (simp only: quotient_of_pow3_pow2)
  then show ?thesis ..
qed

lemma generate_ratios_numerator: "k < 53 \<Longrightarrow> numerator (generate_ratios ! k) = 3 ^ k"
  using generate_ratios_quotient [of k] by (auto simp: numerator_def)

lemma generate_ratios_inj:
  assumes "i < 53" "j < 53" "generate_ratios ! i = generate_ratios ! j"
  shows "i = j"
proof -
  have "numerator (generate_ratios ! i) = numerator (generate_ratios ! j)"
    by (simp only: assms(3))
  then have "(3::int) ^ i = 3 ^ j"
    by (simp only: generate_ratios_numerator [OF assms(1)] generate_ratios_numerator [OF assms(2)])
  then show ?thesis by (rule power_inject_exp [THEN iffD1, rotated]) simp
qed

lemma generate_ratios_distinct: "distinct generate_ratios"
  unfolding distinct_conv_nth
  using generate_ratios_inj by (auto simp: generate_ratios_length)

lemma generate_ratios_unison: "k < 53 \<Longrightarrow> generate_ratios ! k = 1 \<longleftrightarrow> k = 0"
  using generate_ratios_inj [of k 0] by (auto simp: generate_ratios_first)

subsection \<open>The generated values\<close>

lemma ratios_loop_Nil: "ratios_loop [] rs = rs"
  by (simp add: ratios_loop_def)
lemma ratios_loop_Cons: "ratios_loop (i # rng) rs = ratios_loop rng (rs @ [reduce_octave (last rs * (3 / 2))])"
  by (simp add: ratios_loop_def fifth_ratio_def Fract_of_int_quotient)
lemma generate_ratios_values: "generate_ratios = [1, 3 / 2, 9 / 8, 27 / 16, 81 / 64, 243 / 128, 729 / 512, 2187 / 2048, 6561 / 4096, 19683 / 16384, 59049 / 32768, 177147 / 131072, 531441 / 524288, 1594323 / 1048576, 4782969 / 4194304, 14348907 / 8388608, 43046721 / 33554432, 129140163 / 67108864, 387420489 / 268435456, 1162261467 / 1073741824, 3486784401 / 2147483648, 10460353203 / 8589934592, 31381059609 / 17179869184, 94143178827 / 68719476736, 282429536481 / 274877906944, 847288609443 / 549755813888, 2541865828329 / 2199023255552, 7625597484987 / 4398046511104, 22876792454961 / 17592186044416, 68630377364883 / 35184372088832, 205891132094649 / 140737488355328, 617673396283947 / 562949953421312, 1853020188851841 / 1125899906842624, 5559060566555523 / 4503599627370496, 16677181699666569 / 9007199254740992, 50031545098999707 / 36028797018963968, 150094635296999121 / 144115188075855872, 450283905890997363 / 288230376151711744, 1350851717672992089 / 1152921504606846976, 4052555153018976267 / 2305843009213693952, 12157665459056928801 / 9223372036854775808, 36472996377170786403 / 18446744073709551616, 109418989131512359209 / 73786976294838206464, 328256967394537077627 / 295147905179352825856, 984770902183611232881 / 590295810358705651712, 2954312706550833698643 / 2361183241434822606848, 8862938119652501095929 / 4722366482869645213696, 26588814358957503287787 / 18889465931478580854784, 79766443076872509863361 / 75557863725914323419136, 239299329230617529590083 / 151115727451828646838272, 717897987691852588770249 / 604462909807314587353088, 2153693963075557766310747 / 1208925819614629174706176, 6461081889226673298932241 / 4835703278458516698824704]"
  unfolding generate_ratios_def
  by (simp add: upt_conv_Cons ratios_loop_Nil ratios_loop_Cons Fract_of_int_quotient reduce_octave.simps)

lemma generate_ratios_tail_values: "\<forall>r \<in> set (tl generate_ratios). 129 / 128 \<le> r \<and> r \<le> 256 / 129"
  unfolding generate_ratios_values by simp

section \<open>Properties of float rounding\<close>

subsection \<open>Rounding to an integer\<close>

lemma round_half_even_cases:
  "round_half_even x = \<lfloor>x\<rfloor> \<or> round_half_even x = \<lfloor>x\<rfloor> + 1"
  by (simp add: round_half_even_def Let_def)

lemma round_half_even_bounds:
  "x - 1 / 2 \<le> of_int (round_half_even x) \<and> of_int (round_half_even x) \<le> x + 1 / 2"
proof -
  define f where "f = \<lfloor>x\<rfloor>"
  have a: "of_int f \<le> x" and b: "x < of_int f + 1" unfolding f_def by linarith+
  have r: "round_half_even x =
      (if x - of_int f < 1 / 2 then f else if 1 / 2 < x - of_int f then f + 1
       else if even f then f else f + 1)"
    by (simp add: round_half_even_def Let_def f_def)
  show ?thesis
  proof (cases "x - of_int f < 1 / 2")
    case True
    then show ?thesis using a by (simp add: r)
  next
    case False
    then have "x - 1 / 2 \<le> of_int f + 1 \<and> of_int f \<le> x + 1 / 2 \<and> of_int f + 1 \<le> x + 1 / 2
       \<and> x - 1 / 2 \<le> of_int f + 1 \<and> (\<not> 1 / 2 < x - of_int f \<longrightarrow> x - 1 / 2 \<le> of_int f)"
      using a b by auto
    then show ?thesis using False by (simp add: r)
  qed
qed

lemma round_half_even_of_int: "round_half_even (of_int n) = n"
  by (simp add: round_half_even_def)

lemma round_half_even_mono:
  assumes "x \<le> y"
  shows "round_half_even x \<le> round_half_even y"
proof (cases "\<lfloor>x\<rfloor> = \<lfloor>y\<rfloor>")
  case True
  have "x - of_int \<lfloor>x\<rfloor> \<le> y - of_int \<lfloor>x\<rfloor>" using assms by simp
  then show ?thesis
    unfolding round_half_even_def Let_def True [symmetric] by auto
next
  case False
  with floor_mono [OF assms] have "\<lfloor>x\<rfloor> + 1 \<le> \<lfloor>y\<rfloor>" by simp
  moreover have "round_half_even x \<le> \<lfloor>x\<rfloor> + 1"
    using round_half_even_cases [of x] by auto
  moreover have "\<lfloor>y\<rfloor> \<le> round_half_even y"
    using round_half_even_cases [of y] by auto
  ultimately show ?thesis by simp
qed

lemma round_half_even_minus: "round_half_even (- x) = - round_half_even x"
proof (cases "x = of_int \<lfloor>x\<rfloor>")
  case True
  then obtain n where "x = of_int n" ..
  then have "- x = of_int (- n)" by simp
  then show ?thesis using \<open>x = of_int n\<close> by (simp only: round_half_even_of_int)
next
  case False
  have a: "of_int \<lfloor>x\<rfloor> < x" and b: "x < of_int \<lfloor>x\<rfloor> + 1"
    using False by linarith+
  have f: "\<lfloor>- x\<rfloor> = - \<lfloor>x\<rfloor> - 1"
    using a b by (intro floor_unique) simp_all
  show ?thesis
    unfolding round_half_even_def Let_def f using a b by auto
qed

subsection \<open>The binary exponent\<close>

lemma powi2_pos: "0 < (2::rat) powi k"
  by simp

lemma powi2_le: "a \<le> b \<Longrightarrow> (2::rat) powi a \<le> 2 powi b"
  by (rule power_int_increasing) simp_all

lemma powi2_less: "a < b \<Longrightarrow> (2::rat) powi a < 2 powi b"
  by (rule power_int_strict_increasing) simp_all

lemma powi2_less_imp: "(2::rat) powi a < 2 powi b \<Longrightarrow> a < b"
  using powi2_le [of b a] by (cases "a < b") auto

lemma powi2_split: "(2::rat) powi (a + b) = 2 powi a * 2 powi b"
  by (rule power_int_add) simp

lemma powi2_diff: "(2::rat) powi (a - b) = 2 powi a / 2 powi b"
  by (rule power_int_diff) simp

lemma floor_log2_bounds:
  assumes "0 < x"
  shows "2 powi floor_log2 x \<le> x \<and> x < 2 powi (floor_log2 x + 1)"
proof -
  obtain n d where q: "quotient_of x = (n, d)" by (cases "quotient_of x")
  have d: "0 < d" using q by (rule quotient_of_denom_pos)
  have x: "x = of_int n / of_int d" using q by (rule quotient_of_div)
  have n: "0 < n" using assms d unfolding x by (simp add: zero_less_divide_iff)
  define bn where "bn = bitlen n"
  define bd where "bd = bitlen d"
  have bn1: "1 \<le> bn" using n bitlen_eq_zero_iff [of n] bitlen_nonneg [of n]
    unfolding bn_def by linarith
  have bd1: "1 \<le> bd" using d bitlen_eq_zero_iff [of d] bitlen_nonneg [of d]
    unfolding bd_def by linarith
  have "2 ^ nat (bn - 1) \<le> n" "n < 2 ^ nat bn"
    using bitlen_bounds [OF n] unfolding bn_def by simp_all
  then have "(of_int (2 ^ nat (bn - 1)) :: rat) \<le> of_int n" "(of_int n :: rat) < of_int (2 ^ nat bn)"
    by (simp_all only: of_int_le_iff of_int_less_iff)
  then have nl: "(2::rat) powi (bn - 1) \<le> of_int n" and nu: "(of_int n :: rat) < 2 powi bn"
    using bn1 by (simp_all add: power_int_def)
  have "2 ^ nat (bd - 1) \<le> d" "d < 2 ^ nat bd"
    using bitlen_bounds [OF d] unfolding bd_def by simp_all
  then have "(of_int (2 ^ nat (bd - 1)) :: rat) \<le> of_int d" "(of_int d :: rat) < of_int (2 ^ nat bd)"
    by (simp_all only: of_int_le_iff of_int_less_iff)
  then have dl: "(2::rat) powi (bd - 1) \<le> of_int d" and du: "(of_int d :: rat) < 2 powi bd"
    using bd1 by (simp_all add: power_int_def)
  have dpos: "(0::rat) < of_int d" using d by simp
  have "x * 2 powi (bd - 1) \<le> x * of_int d"
    using dl assms by (simp add: mult_left_mono)
  also have "\<dots> = of_int n" unfolding x using dpos by simp
  also have "\<dots> < 2 powi bn" by (rule nu)
  finally have "x < 2 powi bn / 2 powi (bd - 1)"
    by (simp add: pos_less_divide_eq)
  then have up: "x < 2 powi (bn - bd + 1)"
    by (simp add: powi2_diff [symmetric] algebra_simps)
  have "2 powi (bn - 1) \<le> (of_int n :: rat)" by (rule nl)
  also have "\<dots> = x * of_int d" unfolding x using dpos by simp
  also have "\<dots> < x * 2 powi bd"
    using du assms by (simp add: mult_strict_left_mono)
  finally have "2 powi (bn - 1) / 2 powi bd < x"
    by (simp add: pos_divide_less_eq)
  then have lo: "2 powi (bn - bd - 1) < x"
    by (simp add: powi2_diff [symmetric] algebra_simps)
  have fl: "floor_log2 x = (if 2 powi (bn - bd) \<le> x then bn - bd else bn - bd - 1)"
    by (simp add: floor_log2_def q bn_def bd_def Let_def)
  show ?thesis
  proof (cases "2 powi (bn - bd) \<le> x")
    case True
    then show ?thesis using up by (simp add: fl)
  next
    case False
    then show ?thesis using lo by (simp add: fl)
  qed
qed

lemma floor_log2_unique:
  assumes "2 powi e \<le> x" and "x < 2 powi (e + 1)"
  shows "floor_log2 x = e"
proof -
  have "0 < x" using assms(1) powi2_pos [of e] by linarith
  from floor_log2_bounds [OF this]
  have a: "2 powi floor_log2 x \<le> x" and b: "x < 2 powi (floor_log2 x + 1)" by simp_all
  have "(2::rat) powi e < 2 powi (floor_log2 x + 1)" using assms(1) b by linarith
  then have "e < floor_log2 x + 1" by (rule powi2_less_imp)
  moreover have "(2::rat) powi floor_log2 x < 2 powi (e + 1)" using assms(2) a by linarith
  then have "floor_log2 x < e + 1" by (rule powi2_less_imp)
  ultimately show ?thesis by simp
qed

lemma floor_log2_mono:
  assumes "0 < x" and "x \<le> y"
  shows "floor_log2 x \<le> floor_log2 y"
proof -
  have "0 < y" using assms by simp
  from floor_log2_bounds [OF assms(1)] floor_log2_bounds [OF this]
  have "(2::rat) powi floor_log2 x < 2 powi (floor_log2 y + 1)" using assms(2) by linarith
  then have "floor_log2 x < floor_log2 y + 1" by (rule powi2_less_imp)
  then show ?thesis by simp
qed

subsection \<open>Rounding to binary64\<close>

lemma powi2_mult_eq: "a + b = c \<Longrightarrow> (2::rat) powi a * 2 powi b = 2 powi c"
  using powi2_split [of a b] by simp

lemma powi2_div_eq: "a - b = c \<Longrightarrow> (2::rat) powi a / 2 powi b = 2 powi c"
  using powi2_diff [of a b] by simp

lemma round_binary64_0: "round_binary64 0 = 0"
  by (simp add: round_binary64_def)

lemma round_binary64_pos:
  assumes "0 < x"
  shows "round_binary64 x =
    of_int (round_half_even (x / 2 powi (max (floor_log2 x) (- 1022) - 52))) *
      2 powi (max (floor_log2 x) (- 1022) - 52)"
  using assms by (simp add: round_binary64_def Let_def)

lemma round_binary64_minus: "round_binary64 (- x) = - round_binary64 x"
  by (simp add: round_binary64_def Let_def round_half_even_minus)

lemma round_binary64_upper:
  assumes "0 < x"
  shows "round_binary64 x \<le> 2 powi (max (floor_log2 x) (- 1022) + 1)"
proof -
  define e where "e = max (floor_log2 x) (- 1022)"
  define q :: rat where "q = 2 powi (e - 52)"
  have q: "0 < q" unfolding q_def by simp
  have "x < 2 powi (floor_log2 x + 1)" using floor_log2_bounds [OF assms] by simp
  also have "\<dots> \<le> 2 powi (e + 1)" by (rule powi2_le) (simp add: e_def)
  finally have "x / q \<le> 2 powi (e + 1) / q" using q by (simp add: divide_right_mono)
  also have "\<dots> = 2 powi 53" unfolding q_def by (rule powi2_div_eq) simp
  also have "\<dots> = of_int (2 ^ 53)" by simp
  finally have "round_half_even (x / q) \<le> round_half_even (of_int (2 ^ 53))"
    by (rule round_half_even_mono)
  then have "round_half_even (x / q) \<le> 2 ^ 53" by (simp only: round_half_even_of_int)
  then have "(of_int (round_half_even (x / q)) :: rat) \<le> of_int (2 ^ 53)"
    by (simp only: of_int_le_iff)
  then have "of_int (round_half_even (x / q)) * q \<le> of_int (2 ^ 53) * q"
    using q by (simp only: mult_le_cancel_right_pos)
  also have "of_int (2 ^ 53) * q = 2 powi 53 * 2 powi (e - 52)" unfolding q_def by simp
  also have "\<dots> = 2 powi (e + 1)" by (rule powi2_mult_eq) simp
  finally show ?thesis unfolding round_binary64_pos [OF assms] q_def e_def .
qed

lemma round_binary64_lower:
  assumes "0 < x" and "- 1022 \<le> floor_log2 x"
  shows "2 powi floor_log2 x \<le> round_binary64 x"
proof -
  define e where "e = floor_log2 x"
  define q :: rat where "q = 2 powi (e - 52)"
  have m: "max (floor_log2 x) (- 1022) = e" using assms(2) by (simp add: e_def)
  have q: "0 < q" unfolding q_def by simp
  have "of_int (2 ^ 52) = (2::rat) powi 52" by simp
  also have "\<dots> = 2 powi e / q" unfolding q_def by (rule powi2_div_eq [symmetric]) simp
  also have "\<dots> \<le> x / q"
    using floor_log2_bounds [OF assms(1)] q by (simp add: divide_right_mono e_def)
  finally have "round_half_even (of_int (2 ^ 52)) \<le> round_half_even (x / q)"
    by (rule round_half_even_mono)
  then have "2 ^ 52 \<le> round_half_even (x / q)" by (simp only: round_half_even_of_int)
  then have "(of_int (2 ^ 52) :: rat) \<le> of_int (round_half_even (x / q))"
    by (simp only: of_int_le_iff)
  then have *: "of_int (2 ^ 52) * q \<le> of_int (round_half_even (x / q)) * q"
    using q by (simp only: mult_le_cancel_right_pos)
  have "(2::rat) powi e = 2 powi 52 * 2 powi (e - 52)"
    by (rule powi2_mult_eq [symmetric]) simp
  also have "\<dots> = of_int (2 ^ 52) * q" unfolding q_def by simp
  also note *
  finally show ?thesis unfolding round_binary64_pos [OF assms(1)] m q_def e_def .
qed

lemma round_binary64_nonneg:
  assumes "0 \<le> x"
  shows "0 \<le> round_binary64 x"
proof (cases "x = 0")
  case True
  then show ?thesis by (simp add: round_binary64_0)
next
  case False
  with assms have x: "0 < x" by simp
  define q :: rat where "q = 2 powi (max (floor_log2 x) (- 1022) - 52)"
  have q: "0 < q" unfolding q_def by simp
  have "of_int 0 \<le> x / q" using x q by simp
  then have "round_half_even (of_int 0) \<le> round_half_even (x / q)"
    by (rule round_half_even_mono)
  then have "0 \<le> round_half_even (x / q)" by (simp only: round_half_even_of_int)
  then show ?thesis
    unfolding round_binary64_pos [OF x] q_def [symmetric] using q by simp
qed

lemma round_binary64_mono_pos:
  assumes "0 < x" and "x \<le> y"
  shows "round_binary64 x \<le> round_binary64 y"
proof -
  have y: "0 < y" using assms by simp
  define ex where "ex = max (floor_log2 x) (- 1022)"
  define ey where "ey = max (floor_log2 y) (- 1022)"
  have le: "ex \<le> ey"
    using floor_log2_mono [OF assms] by (simp add: ex_def ey_def)
  show ?thesis
  proof (cases "ex = ey")
    case True
    define q :: rat where "q = 2 powi (ey - 52)"
    have q: "0 < q" unfolding q_def by simp
    have "x / q \<le> y / q" using assms(2) q by (simp add: divide_right_mono)
    then have "round_half_even (x / q) \<le> round_half_even (y / q)"
      by (rule round_half_even_mono)
    then have "(of_int (round_half_even (x / q)) :: rat) \<le> of_int (round_half_even (y / q))"
      by (simp only: of_int_le_iff)
    then have "of_int (round_half_even (x / q)) * q \<le> of_int (round_half_even (y / q)) * q"
      using q by (simp only: mult_le_cancel_right_pos)
    then show ?thesis
      unfolding round_binary64_pos [OF assms(1)] round_binary64_pos [OF y]
        ex_def [symmetric] ey_def [symmetric] True q_def .
  next
    case False
    with le have lt: "ex < ey" by simp
    then have n: "- 1022 \<le> floor_log2 y" and ey: "ey = floor_log2 y"
      unfolding ex_def ey_def by linarith+
    have "round_binary64 x \<le> 2 powi (ex + 1)"
      using round_binary64_upper [OF assms(1)] by (simp add: ex_def)
    also have "\<dots> \<le> 2 powi ey" using lt by (intro powi2_le) simp
    also have "\<dots> \<le> round_binary64 y"
      unfolding ey by (rule round_binary64_lower [OF y n])
    finally show ?thesis .
  qed
qed

lemma round_binary64_mono:
  assumes "x \<le> y"
  shows "round_binary64 x \<le> round_binary64 y"
proof -
  consider "0 < x" | "x \<le> 0" "0 \<le> y" | "y < 0" by linarith
  then show ?thesis
  proof cases
    case 1
    then show ?thesis using assms by (rule round_binary64_mono_pos)
  next
    case 2
    have "0 \<le> round_binary64 (- x)" using 2 by (intro round_binary64_nonneg) simp
    then have "round_binary64 x \<le> 0" by (simp add: round_binary64_minus)
    also have "0 \<le> round_binary64 y" using 2 by (intro round_binary64_nonneg)
    finally show ?thesis .
  next
    case 3
    have "round_binary64 (- y) \<le> round_binary64 (- x)"
      using 3 assms by (intro round_binary64_mono_pos) simp_all
    then show ?thesis by (simp add: round_binary64_minus)
  qed
qed

lemma round_binary64_abs: "\<bar>round_binary64 x\<bar> = round_binary64 \<bar>x\<bar>"
proof (cases "0 \<le> x")
  case True
  then show ?thesis using round_binary64_nonneg [of x] by simp
next
  case False
  then have "0 \<le> round_binary64 (- x)" by (intro round_binary64_nonneg) simp
  then show ?thesis using False by (simp add: round_binary64_minus)
qed

lemma floor_log2_powi: "floor_log2 (2 powi k) = k"
  by (rule floor_log2_unique) (simp_all add: powi2_less)

lemma round_binary64_integral:
  assumes "0 < x" and "x / 2 powi (max (floor_log2 x) (- 1022) - 52) = of_int m"
  shows "round_binary64 x = x"
proof -
  have "round_binary64 x = of_int m * 2 powi (max (floor_log2 x) (- 1022) - 52)"
    unfolding round_binary64_pos [OF assms(1)] assms(2) round_half_even_of_int ..
  also have "\<dots> = x" unfolding assms(2) [symmetric] by simp
  finally show ?thesis .
qed

lemma round_binary64_powi:
  assumes "- 1074 \<le> k"
  shows "round_binary64 (2 powi k) = 2 powi k"
proof (rule round_binary64_integral)
  show "(0::rat) < 2 powi k" by simp
  define j where "j = k - (max k (- 1022) - 52)"
  have j: "0 \<le> j" using assms by (simp add: j_def)
  have "(2::rat) powi k / 2 powi (max (floor_log2 (2 powi k)) (- 1022) - 52) = 2 powi j"
    unfolding floor_log2_powi by (rule powi2_div_eq) (simp add: j_def)
  also have "\<dots> = of_int (2 ^ nat j)" using j by (simp add: power_int_def)
  finally show "(2::rat) powi k / 2 powi (max (floor_log2 (2 powi k)) (- 1022) - 52) =
    of_int (2 ^ nat j)" .
qed

lemma round_binary64_nat:
  assumes "0 < n" and "n < 2 ^ 53"
  shows "round_binary64 (of_int n) = of_int n"
proof (rule round_binary64_integral)
  show x: "(0::rat) < of_int n" using assms by simp
  define e where "e = floor_log2 (of_int n)"
  have "(2::rat) powi 0 \<le> of_int n" using assms by simp
  then have "floor_log2 (2 powi 0) \<le> floor_log2 (of_int n)"
    by (intro floor_log2_mono) simp_all
  then have e0: "0 \<le> e" by (simp only: floor_log2_powi e_def)
  have "(2::rat) powi e \<le> of_int n" using floor_log2_bounds [OF x] by (simp add: e_def)
  also have "\<dots> < of_int (2 ^ 53)" using assms by (simp only: of_int_less_iff)
  also have "\<dots> = 2 powi 53" by simp
  finally have e53: "e < 53" by (rule powi2_less_imp)
  have m: "max e (- 1022) = e" using e0 by simp
  have "(2::rat) powi (e - 52) * 2 powi (52 - e) = 2 powi 0" by (rule powi2_mult_eq) simp
  then have "(of_int n :: rat) / 2 powi (e - 52) = of_int n * 2 powi (52 - e)"
    by (simp add: field_simps)
  also have "\<dots> = of_int n * of_int (2 ^ nat (52 - e))"
    using e53 by (simp add: power_int_def)
  also have "\<dots> = of_int (n * 2 ^ nat (52 - e))" by simp
  finally show "(of_int n :: rat) / 2 powi (max (floor_log2 (of_int n)) (- 1022) - 52) =
    of_int (n * 2 ^ nat (52 - e))"
    unfolding e_def [symmetric] m .
qed

lemma round_binary64_int:
  assumes "\<bar>n\<bar> < 2 ^ 53"
  shows "round_binary64 (of_int n) = of_int n"
proof -
  consider "n = 0" | "0 < n" | "n < 0" by linarith
  then show ?thesis
  proof cases
    case 1
    then show ?thesis by (simp add: round_binary64_0)
  next
    case 2
    then show ?thesis using assms by (intro round_binary64_nat) simp_all
  next
    case 3
    then have "round_binary64 (of_int (- n)) = of_int (- n)"
      using assms by (intro round_binary64_nat) simp_all
    then show ?thesis by (simp add: round_binary64_minus)
  qed
qed

lemma round_binary64_ge_powi:
  assumes "- 1074 \<le> k" and "2 powi k \<le> x"
  shows "2 powi k \<le> round_binary64 x"
  using round_binary64_mono [OF assms(2)] by (simp only: round_binary64_powi [OF assms(1)])

lemma round_binary64_le_powi:
  assumes "- 1074 \<le> k" and "x \<le> 2 powi k"
  shows "round_binary64 x \<le> 2 powi k"
  using round_binary64_mono [OF assms(2)] by (simp only: round_binary64_powi [OF assms(1)])

lemma round_binary64_unit:
  assumes "1 \<le> x" and "x < 2"
  shows "round_binary64 x = of_int (round_half_even (x * 2 ^ 52)) / 2 ^ 52"
proof -
  have x: "0 < x" using assms by simp
  have "floor_log2 x = 0" using assms by (intro floor_log2_unique) simp_all
  then show ?thesis
    unfolding round_binary64_pos [OF x] by (simp add: power_int_minus field_simps)
qed

section \<open>Properties of the sorter\<close>

subsection \<open>Keys\<close>

lemma numerator_denominator: "of_int (numerator r) / of_int (denominator r) = r"
  using quotient_of_div [of r "numerator r" "denominator r"]
  by (simp add: numerator_def denominator_def)

lemma denominator_pos: "0 < denominator r"
  unfolding denominator_def by (rule quotient_of_denom_pos')

lemma fraction_true_div:
  "int_true_div (numerator r) (denominator r) =
     (if 2 ^ 1024 \<le> \<bar>round_binary64 r\<bar> then Inl OverflowError else Inr (round_binary64 r))"
  using denominator_pos [of r]
  by (simp add: int_true_div_def numerator_denominator Let_def)

lemma round_binary64_in_range:
  assumes "\<bar>x\<bar> \<le> 2 ^ 1023"
  shows "\<bar>round_binary64 x\<bar> < 2 ^ 1024"
proof -
  have "\<bar>x\<bar> \<le> 2 powi 1023" using assms by simp
  then have "round_binary64 \<bar>x\<bar> \<le> 2 powi 1023" by (intro round_binary64_le_powi) simp_all
  then have "\<bar>round_binary64 x\<bar> \<le> 2 ^ 1023" by (simp add: round_binary64_abs)
  also have "(2::rat) ^ 1023 < 2 ^ 1024" by (rule power_strict_increasing) simp_all
  finally show ?thesis .
qed

lemma ratio_key_octave:
  assumes "1 \<le> r" and "r < 2"
  shows "ratio_key r = Inr (round_binary64 r)"
proof -
  have "(2::rat) = 2 ^ 1" by simp
  also have "\<dots> \<le> 2 ^ 1023" by (rule power_increasing) simp_all
  finally have "\<bar>r\<bar> \<le> 2 ^ 1023" using assms by simp
  from round_binary64_in_range [OF this] show ?thesis
    by (simp add: ratio_key_def fraction_true_div)
qed

subsection \<open>Element functions that can raise\<close>

lemma map_result_all_Inr:
  "(\<And>x. x \<in> set xs \<Longrightarrow> f x = Inr (g x)) \<Longrightarrow> map_result f xs = Inr (map g xs)"
  by (induction xs) simp_all

lemma map_result_length:
  "map_result f xs = Inr ys \<Longrightarrow> length ys = length xs"
  by (induction xs arbitrary: ys) (auto split: sum.splits)

lemma map_result_nth:
  "map_result f xs = Inr ys \<Longrightarrow> i < length xs \<Longrightarrow> f (xs ! i) = Inr (ys ! i)"
proof (induction xs arbitrary: ys i)
  case Nil
  then show ?case by simp
next
  case (Cons x xs)
  then show ?case by (cases i) (auto split: sum.splits)
qed


subsection \<open>Sorting by precomputed keys\<close>

lemma insort_key_decorated:
  "insort_key fst (g x, x) (map (\<lambda>x. (g x, x)) ys) = map (\<lambda>x. (g x, x)) (insort_key g x ys)"
  by (induction ys) simp_all

lemma sort_key_decorated:
  "sort_key fst (map (\<lambda>x. (g x, x)) xs) = map (\<lambda>x. (g x, x)) (sort_key g xs)"
  by (induction xs) (simp_all add: insort_key_decorated)

lemma sort_by_keys:
  "map snd (sort_key fst (zip (map g xs) xs)) = sort_key g xs"
proof -
  have "zip (map g xs) xs = map (\<lambda>x. (g x, x)) xs"
    by (induction xs) simp_all
  then show ?thesis by (simp add: sort_key_decorated comp_def)
qed

lemma sort_permutes:
  assumes "length ks = length xs"
  shows "mset (map snd (sort_key fst (zip ks xs))) = mset xs"
proof -
  have "mset (map snd (sort_key fst (zip ks xs))) = image_mset snd (mset (sort_key fst (zip ks xs)))"
    by simp
  also have "\<dots> = image_mset snd (mset (zip ks xs))" by (simp only: mset_sort)
  also have "\<dots> = mset (map snd (zip ks xs))" by simp
  also have "map snd (zip ks xs) = xs" using assms by simp
  finally show ?thesis .
qed

lemma sort_ratios_permutes:
  assumes "sort_ratios xs = Inr rs"
  shows "mset rs = mset xs"
proof -
  from assms obtain ks where k: "map_result ratio_key xs = Inr ks"
    and rs: "rs = map snd (sort_key fst (zip ks xs))"
    by (auto simp: sort_ratios_def split: sum.splits)
  show ?thesis unfolding rs using map_result_length [OF k] by (rule sort_permutes)
qed

lemma ordina_rapporti_eq: "ordina_rapporti = sort_ratios"
  by (rule ext) (simp add: ordina_rapporti_def sort_ratios_def ratio_key_def [abs_def])

lemma generate_ratios_set_range:
  assumes "r \<in> set generate_ratios"
  shows "1 \<le> r \<and> r < 2"
proof -
  from assms obtain k where "k < 53" "r = generate_ratios ! k"
    by (auto simp: in_set_conv_nth generate_ratios_length)
  then show ?thesis using generate_ratios_range by simp
qed

lemma sort_ratios_generate:
  "sort_ratios generate_ratios = Inr (sort_key round_binary64 generate_ratios)"
proof -
  have "map_result ratio_key generate_ratios = Inr (map round_binary64 generate_ratios)"
    using generate_ratios_set_range by (intro map_result_all_Inr ratio_key_octave) simp_all
  then show ?thesis by (simp add: sort_ratios_def sort_by_keys)
qed

subsection \<open>Distinct ratios are far apart\<close>

lemma generate_ratios_tail_bounds:
  assumes "1 \<le> d" and "d < 53"
  shows "129 / 128 \<le> generate_ratios ! d \<and> generate_ratios ! d \<le> 256 / 129"
proof -
  obtain n where d: "d = Suc n" using assms(1) by (cases d) simp_all
  have "n < length (tl generate_ratios)" using assms(2) d by (simp add: generate_ratios_length)
  then have "tl generate_ratios ! n \<in> set (tl generate_ratios)" by (rule nth_mem)
  moreover have "tl generate_ratios ! n = generate_ratios ! d"
    using assms(2) d by (simp add: nth_tl generate_ratios_length)
  ultimately show ?thesis using generate_ratios_tail_values by auto
qed

lemma octave_fold:
  fixes X Y :: rat
  assumes X: "1 \<le> X" "X < 2" and Y: "1 \<le> Y" "Y < 4"
    and eq: "X * 2 ^ a = Y * 2 ^ b"
  shows "X = Y \<or> X = Y / 2"
proof (cases "a \<le> b")
  case True
  then obtain t where b: "b = a + t" using le_Suc_ex by blast
  have "X = Y * 2 ^ t" using eq by (simp add: b power_add)
  moreover have "t = 0"
  proof (rule ccontr)
    assume "t \<noteq> 0"
    then have "(2::rat) ^ 1 \<le> 2 ^ t" by (intro power_increasing) simp_all
    then have "2 * 1 \<le> 2 ^ t * Y" using Y(1) by (intro mult_mono) simp_all
    then show False using \<open>X = Y * 2 ^ t\<close> X(2) by (simp add: mult.commute)
  qed
  ultimately show ?thesis by simp
next
  case False
  then obtain t where a: "a = b + Suc t" using less_imp_Suc_add [of b a] by auto
  have y: "Y = X * 2 ^ Suc t" using eq by (simp add: a power_add)
  have "t = 0"
  proof (rule ccontr)
    assume "t \<noteq> 0"
    then have "(2::rat) ^ 2 \<le> 2 ^ Suc t" by (intro power_increasing) simp_all
    then have "1 * 2 ^ 2 \<le> X * 2 ^ Suc t" using X(1) by (intro mult_mono) simp_all
    then show False using y Y(2) by simp
  qed
  then show ?thesis using y by simp
qed

lemma generate_ratios_gap_index:
  assumes "j < k" and "k < 53"
  shows "129 / 128 * generate_ratios ! j \<le> generate_ratios ! k \<or>
         129 / 128 * generate_ratios ! k \<le> generate_ratios ! j"
proof -
  define d where "d = k - j"
  have d: "1 \<le> d" "d < 53" and k: "k = j + d" and j: "j < 53"
    using assms by (simp_all add: d_def)
  from generate_ratios_form [OF assms(2)] obtain a where a: "generate_ratios ! k = 3 ^ k / 2 ^ a" ..
  from generate_ratios_form [OF j] obtain b where b: "generate_ratios ! j = 3 ^ j / 2 ^ b" ..
  from generate_ratios_form [OF d(2)] obtain c where c: "generate_ratios ! d = 3 ^ d / 2 ^ c" ..
  define X where "X = generate_ratios ! k"
  define J where "J = generate_ratios ! j"
  define D where "D = generate_ratios ! d"
  have X: "1 \<le> X" "X < 2" using generate_ratios_range [OF assms(2)] by (simp_all add: X_def)
  have J: "1 \<le> J" "J < 2" using generate_ratios_range [OF j] by (simp_all add: J_def)
  have D: "129 / 128 \<le> D" "D \<le> 256 / 129"
    using generate_ratios_tail_bounds [OF d] by (simp_all add: D_def)
  have "1 * 1 \<le> J * D" using J D by (intro mult_mono) simp_all
  then have Y1: "1 \<le> J * D" by simp
  have "J * D \<le> 2 * (256 / 129)" using J D by (intro mult_mono) simp_all
  then have Y4: "J * D < 4" by simp
  have "X * 2 ^ a = 3 ^ k" by (simp add: X_def a)
  also have "\<dots> = (J * 2 ^ b) * (D * 2 ^ c)" by (simp add: J_def D_def b c k power_add)
  also have "\<dots> = (J * D) * 2 ^ (b + c)" by (simp add: power_add)
  finally have "X = J * D \<or> X = J * D / 2" by (rule octave_fold [OF X Y1 Y4])
  then show ?thesis
  proof
    assume "X = J * D"
    moreover have "J * (129 / 128) \<le> J * D" using D(1) J(1) by (intro mult_left_mono) simp_all
    ultimately have "129 / 128 * J \<le> X" by (simp add: mult.commute)
    then show ?thesis unfolding X_def J_def ..
  next
    assume x: "X = J * D / 2"
    have "J * D \<le> J * (256 / 129)" using D(2) J(1) by (intro mult_left_mono) simp_all
    then have "129 / 128 * X \<le> J" unfolding x by simp
    then show ?thesis unfolding X_def J_def ..
  qed
qed

lemma generate_ratios_gap:
  assumes "a \<in> set generate_ratios" and "b \<in> set generate_ratios" and "a < b"
  shows "129 / 128 * a \<le> b"
proof -
  from assms(1) obtain i where i: "i < 53" "a = generate_ratios ! i"
    by (auto simp: in_set_conv_nth generate_ratios_length)
  from assms(2) obtain j where j: "j < 53" "b = generate_ratios ! j"
    by (auto simp: in_set_conv_nth generate_ratios_length)
  have b: "0 < b" using generate_ratios_set_range [OF assms(2)] by simp
  have "i \<noteq> j" using assms(3) i j by auto
  then consider "i < j" | "j < i" by linarith
  then have "129 / 128 * a \<le> b \<or> 129 / 128 * b \<le> a"
  proof cases
    case 1
    from generate_ratios_gap_index [OF 1 j(1)] show ?thesis unfolding i j .
  next
    case 2
    from generate_ratios_gap_index [OF 2 i(1)] show ?thesis unfolding i j by blast
  qed
  moreover have "\<not> 129 / 128 * b \<le> a" using assms(3) b by simp
  ultimately show ?thesis by blast
qed

subsection \<open>The float keys keep the order of the generated ratios\<close>

lemma round_binary64_separates:
  assumes "1 \<le> a" and "129 / 128 * a \<le> b" and "b < 2"
  shows "round_binary64 a < round_binary64 b"
proof -
  have a2: "a < 2" and b1: "1 \<le> b" using assms by simp_all
  have "of_int (round_half_even (a * 2 ^ 52)) \<le> a * 2 ^ 52 + 1 / 2"
    using round_half_even_bounds [of "a * 2 ^ 52"] by simp
  also have "\<dots> < b * 2 ^ 52 - 1 / 2"
  proof -
    have "2 \<le> a * (2 ^ 52 / 128)" using assms(1) by simp
    moreover have "129 / 128 * a * 2 ^ 52 \<le> b * 2 ^ 52"
      using assms(2) by (rule mult_right_mono) simp
    ultimately show ?thesis by simp
  qed
  also have "\<dots> \<le> of_int (round_half_even (b * 2 ^ 52))"
    using round_half_even_bounds [of "b * 2 ^ 52"] by simp
  finally have "(of_int (round_half_even (a * 2 ^ 52)) :: rat) / 2 ^ 52 <
      of_int (round_half_even (b * 2 ^ 52)) / 2 ^ 52"
    by (simp only: divide_strict_right_mono zero_less_power zero_less_numeral)
  then show ?thesis
    by (simp only: round_binary64_unit [OF assms(1) a2] round_binary64_unit [OF b1 assms(3)])
qed

lemma generate_ratios_key_order:
  assumes "a \<in> set generate_ratios" and "b \<in> set generate_ratios"
    and "round_binary64 a \<le> round_binary64 b"
  shows "a \<le> b"
proof (rule ccontr)
  assume "\<not> a \<le> b"
  then have "b < a" by simp
  from generate_ratios_gap [OF assms(2) assms(1) this]
  have "round_binary64 b < round_binary64 a"
    using generate_ratios_set_range [OF assms(1)] generate_ratios_set_range [OF assms(2)]
    by (intro round_binary64_separates) simp_all
  with assms(3) show False by simp
qed

lemma sorted_sort_key_generate: "sorted (sort_key round_binary64 generate_ratios)"
proof -
  let ?S = "sort_key round_binary64 generate_ratios"
  have "sorted (map round_binary64 ?S)" by (rule sorted_sort_key)
  then have "sorted_wrt (\<lambda>x y. round_binary64 x \<le> round_binary64 y) ?S"
    by (simp only: sorted_map)
  then show "sorted_wrt (\<le>) ?S"
  proof (rule sorted_wrt_mono_rel [rotated])
    fix x y
    assume "x \<in> set ?S" "y \<in> set ?S" "round_binary64 x \<le> round_binary64 y"
    then show "x \<le> y" by (simp add: generate_ratios_key_order)
  qed
qed

section \<open>Properties of the frequency converter and of the constructors\<close>

subsection \<open>One frequency\<close>

lemma py_float_fraction:
  "py_float (PyFraction q) =
     (if 2 ^ 1024 \<le> \<bar>round_binary64 q\<bar> then Inl OverflowError
      else Inr (Finite (round_binary64 q)))"
  by (simp add: fraction_true_div)

lemma py_float_octave:
  assumes "1 \<le> r" and "r < 2"
  shows "py_float (PyFraction r) = Inr (Finite (round_binary64 r))"
  using ratio_key_octave [OF assms] by (simp add: ratio_key_def)

lemma round_binary64_octave:
  assumes "1 \<le> r" and "r < 2"
  shows "1 \<le> round_binary64 r \<and> round_binary64 r \<le> 2"
proof -
  have "2 powi 0 \<le> r" and "r \<le> 2 powi 1" using assms by simp_all
  then have "2 powi 0 \<le> round_binary64 r" and "round_binary64 r \<le> 2 powi 1"
    by (simp_all only: round_binary64_ge_powi round_binary64_le_powi)
  then show ?thesis by simp
qed


lemma float_of_exact_finite:
  assumes "\<bar>x\<bar> \<le> 2 ^ 1023"
  shows "float_of_exact x = Finite (round_binary64 x)"
proof -
  have "\<bar>round_binary64 x\<bar> < 2 ^ 1024" using assms by (rule round_binary64_in_range)
  then show ?thesis by (auto simp: float_of_exact_def Let_def)
qed

lemma frequency_int:
  "(case py_mul (PyFraction r) (PyInt n) of Inl e \<Rightarrow> Inl e | Inr x \<Rightarrow> py_float x) =
     (if 2 ^ 1024 \<le> \<bar>round_binary64 (r * of_int n)\<bar> then Inl OverflowError
      else Inr (Finite (round_binary64 (r * of_int n))))"
  by (simp add: py_float_fraction del: py_float.simps)

lemma frequency_fraction:
  "(case py_mul (PyFraction r) (PyFraction q) of Inl e \<Rightarrow> Inl e | Inr x \<Rightarrow> py_float x) =
     (if 2 ^ 1024 \<le> \<bar>round_binary64 (r * q)\<bar> then Inl OverflowError
      else Inr (Finite (round_binary64 (r * q))))"
  by (simp add: py_float_fraction del: py_float.simps)

lemma frequency_float:
  assumes "1 \<le> r" and "r < 2"
  shows "(case py_mul (PyFraction r) (PyFloat f) of Inl e \<Rightarrow> Inl e | Inr x \<Rightarrow> py_float x) =
     Inr (float_mul (Finite (round_binary64 r)) f)"
  by (simp add: py_float_octave [OF assms] del: py_float.simps(2))

subsection \<open>The sorted ratios\<close>

lemma sorted_generated_set: "set sorted_generated = set generate_ratios"
  by (simp add: sorted_generated_def)

lemma sorted_generated_length: "length sorted_generated = 53"
  by (simp add: sorted_generated_def generate_ratios_length)

lemma sorted_generated_sorted: "sorted sorted_generated"
  unfolding sorted_generated_def by (rule sorted_sort_key_generate)

lemma sorted_generated_range:
  "i < 53 \<Longrightarrow> 1 \<le> sorted_generated ! i \<and> sorted_generated ! i < 2"
  using nth_mem [of i sorted_generated] generate_ratios_set_range
  by (simp add: sorted_generated_set sorted_generated_length)

lemma sorted_generated_first: "sorted_generated ! 0 = 1"
proof -
  have "1 \<in> set sorted_generated"
    using nth_mem [of 0 generate_ratios]
    by (simp add: sorted_generated_set generate_ratios_first generate_ratios_length)
  then obtain i where i: "i < 53" "sorted_generated ! i = 1"
    by (auto simp: in_set_conv_nth sorted_generated_length)
  have "sorted_generated ! 0 \<le> sorted_generated ! i"
    using sorted_generated_sorted i(1)
    by (simp add: sorted_iff_nth_mono sorted_generated_length)
  moreover have "1 \<le> sorted_generated ! 0" using sorted_generated_range [of 0] by simp
  ultimately show ?thesis using i(2) by simp
qed

lemma sorted_generated_last:
  "last sorted_generated = Max (set generate_ratios)"
proof -
  have ne: "sorted_generated \<noteq> []" using sorted_generated_length by auto
  have l: "last sorted_generated = sorted_generated ! 52"
    using ne by (simp add: last_conv_nth sorted_generated_length)
  have "Max (set sorted_generated) = last sorted_generated"
  proof (rule Max_eqI)
    show "finite (set sorted_generated)" by simp
    show "last sorted_generated \<in> set sorted_generated" using ne by simp
    fix y
    assume "y \<in> set sorted_generated"
    then obtain i where i: "i < 53" "sorted_generated ! i = y"
      by (auto simp: in_set_conv_nth sorted_generated_length)
    have "i \<le> 52" and "52 < length sorted_generated"
      using i(1) by (simp_all add: sorted_generated_length)
    with sorted_generated_sorted have "sorted_generated ! i \<le> sorted_generated ! 52"
      by (rule sorted_nth_mono)
    then show "y \<le> last sorted_generated" using i(2) l by simp
  qed
  then show ?thesis by (simp add: sorted_generated_set)
qed

lemma generate_ratios_upper:
  assumes "r \<in> set generate_ratios"
  shows "r \<le> 256 / 129"
proof -
  from assms obtain k where k: "k < 53" "r = generate_ratios ! k"
    by (auto simp: in_set_conv_nth generate_ratios_length)
  show ?thesis
  proof (cases "k = 0")
    case True
    then show ?thesis using k by (simp add: generate_ratios_first)
  next
    case False
    then have "1 \<le> k" by simp
    from generate_ratios_tail_bounds [OF this k(1)] show ?thesis using k(2) by simp
  qed
qed

lemma generate_ratios_Max: "Max (set generate_ratios) = 36472996377170786403 / 18446744073709551616"
  unfolding generate_ratios_values by simp

subsection \<open>The constructors\<close>

lemma sort_ratios_sorted_generated: "sort_ratios generate_ratios = Inr sorted_generated"
  by (simp add: sort_ratios_generate sorted_generated_def)

lemma calcola_frequenze_eq: "calcola_frequenze = calculate_frequencies"
  by (intro ext) (simp add: calcola_frequenze_def calculate_frequencies_def)

lemma PythagoreanSystem_unfold:
  "PythagoreanSystem fundamental0 octave =
     (case py_mul fundamental0 octave of
        Inl e \<Rightarrow> Inl e
      | Inr f \<Rightarrow>
          (case calculate_frequencies f sorted_generated of
             Inl e \<Rightarrow> Inl e
           | Inr fs \<Rightarrow> Inr \<lparr>fundamental = f, ratios = sorted_generated, frequencies = fs\<rparr>))"
  by (simp add: PythagoreanSystem_def sort_ratios_sorted_generated cong: sum.case_cong)

lemma SistemaPitagorico_unfold:
  "SistemaPitagorico fondamentale0 ottava =
     (case py_mul fondamentale0 ottava of
        Inl e \<Rightarrow> Inl e
      | Inr f \<Rightarrow>
          (case calculate_frequencies f sorted_generated of
             Inl e \<Rightarrow> Inl e
           | Inr fs \<Rightarrow> Inr \<lparr>fondamentale = f, rapporti = sorted_generated, frequenze = fs\<rparr>))"
  by (simp add: SistemaPitagorico_def ordina_rapporti_eq genera_rapporti_eq calcola_frequenze_eq
      sort_ratios_sorted_generated cong: sum.case_cong)

lemma PythagoreanSystem_Inr:
  assumes "PythagoreanSystem fundamental0 octave = Inr s"
  shows "py_mul fundamental0 octave = Inr (fundamental s)"
    and "ratios s = sorted_generated"
    and "calculate_frequencies (fundamental s) sorted_generated = Inr (frequencies s)"
  using assms by (auto simp: PythagoreanSystem_unfold split: sum.splits)

lemma SistemaPitagorico_Inr:
  assumes "SistemaPitagorico fondamentale0 ottava = Inr t"
  shows "py_mul fondamentale0 ottava = Inr (fondamentale t)"
    and "rapporti t = sorted_generated"
    and "calculate_frequencies (fondamentale t) sorted_generated = Inr (frequenze t)"
  using assms by (auto simp: SistemaPitagorico_unfold split: sum.splits)

lemma SistemaPitagorico_PythagoreanSystem:
  "SistemaPitagorico f0 oc =
     (case PythagoreanSystem f0 oc of
        Inl e \<Rightarrow> Inl e
      | Inr s \<Rightarrow> Inr \<lparr>fondamentale = fundamental s, rapporti = ratios s,
                       frequenze = frequencies s\<rparr>)"
  by (simp add: SistemaPitagorico_unfold PythagoreanSystem_unfold split: sum.splits)

lemma frequencies_nth:
  assumes "calculate_frequencies f sorted_generated = Inr fs" and "i < 53"
  shows "(case py_mul (PyFraction (sorted_generated ! i)) f of
            Inl e \<Rightarrow> Inl e | Inr x \<Rightarrow> py_float x) = Inr (fs ! i)"
  using map_result_nth [OF assms(1) [unfolded calculate_frequencies_def], of i] assms(2)
  by (simp add: sorted_generated_length)

lemma frequencies_length:
  assumes "calculate_frequencies f sorted_generated = Inr fs"
  shows "length fs = 53"
  using map_result_length [OF assms [unfolded calculate_frequencies_def]]
  by (simp add: sorted_generated_length)

lemma frequencies_nth_int:
  assumes "calculate_frequencies (PyInt n) sorted_generated = Inr fs" and "i < 53"
  shows "fs ! i = Finite (round_binary64 (sorted_generated ! i * of_int n))"
  using frequencies_nth [OF assms] unfolding frequency_int by (simp split: if_splits)





lemma round_binary64_error_pos:
  assumes "2 powi (- 1022) \<le> x"
  shows "\<bar>round_binary64 x - x\<bar> \<le> x / 2 ^ 53"
proof -
  have x: "0 < x" using assms powi2_pos [of "- 1022"] by linarith
  define e where "e = floor_log2 x"
  define q :: rat where "q = 2 powi (e - 52)"
  have "floor_log2 (2 powi (- 1022)) \<le> floor_log2 x"
    using assms by (intro floor_log2_mono) simp_all
  then have e: "- 1022 \<le> e" by (simp only: floor_log2_powi e_def)
  then have m: "max (floor_log2 x) (- 1022) = e" by (simp add: e_def)
  have q: "0 < q" unfolding q_def by simp
  have r: "round_binary64 x = of_int (round_half_even (x / q)) * q"
    unfolding round_binary64_pos [OF x] m q_def ..
  have "\<bar>of_int (round_half_even (x / q)) - x / q\<bar> \<le> 1 / 2"
    using round_half_even_bounds [of "x / q"] by linarith
  then have "\<bar>of_int (round_half_even (x / q)) - x / q\<bar> * q \<le> 1 / 2 * q"
    using q by (intro mult_right_mono) simp_all
  moreover have "\<bar>of_int (round_half_even (x / q)) - x / q\<bar> * q = \<bar>round_binary64 x - x\<bar>"
  proof -
    have "\<bar>of_int (round_half_even (x / q)) - x / q\<bar> * q =
        \<bar>(of_int (round_half_even (x / q)) - x / q) * q\<bar>"
      using q by (simp add: abs_mult)
    also have "(of_int (round_half_even (x / q)) - x / q) * q = round_binary64 x - x"
      using q by (simp add: r left_diff_distrib)
    finally show ?thesis .
  qed
  moreover have "1 / 2 * q \<le> x / 2 ^ 53"
  proof -
    have "q * 2 powi 52 = 2 powi e" unfolding q_def by (rule powi2_mult_eq) simp
    then have "q * 2 ^ 52 = 2 powi e" by simp
    also have "\<dots> \<le> x" using floor_log2_bounds [OF x] by (simp add: e_def)
    finally show ?thesis by (simp add: field_simps)
  qed
  ultimately show ?thesis by simp
qed

lemma round_binary64_error:
  assumes "2 powi (- 1022) \<le> \<bar>x\<bar>"
  shows "\<bar>round_binary64 x - x\<bar> \<le> \<bar>x\<bar> / 2 ^ 53"
proof (cases "0 \<le> x")
  case True
  then show ?thesis using round_binary64_error_pos [of x] assms by simp
next
  case False
  then have "\<bar>round_binary64 (- x) - (- x)\<bar> \<le> (- x) / 2 ^ 53"
    using assms by (intro round_binary64_error_pos) simp
  moreover have "\<bar>round_binary64 (- x) - (- x)\<bar> = \<bar>round_binary64 x - x\<bar>"
    unfolding round_binary64_minus by (simp add: abs_minus_commute)
  ultimately show ?thesis using False by simp
qed

lemma map_result_total:
  "(\<And>x. x \<in> set xs \<Longrightarrow> \<exists>y. f x = Inr y) \<Longrightarrow> \<exists>ys. map_result f xs = Inr ys"
proof (induction xs)
  case Nil
  show ?case by simp
next
  case (Cons x xs)
  from Cons.prems [of x] obtain y where y: "f x = Inr y" by auto
  from Cons.IH Cons.prems obtain ys where "map_result f xs = Inr ys" by auto
  with y show ?case by simp
qed

lemma scaled_in_range:
  fixes m v :: rat
  assumes "1 \<le> m" and "m \<le> 2" and "\<bar>v\<bar> \<le> 2 ^ 1022"
  shows "\<bar>m * v\<bar> \<le> 2 ^ 1023"
proof -
  have "\<bar>m * v\<bar> = m * \<bar>v\<bar>" using assms(1) by (simp add: abs_mult)
  also have "\<dots> \<le> 2 * 2 ^ 1022" using assms by (intro mult_mono) simp_all
  also have "\<dots> = 2 ^ 1023" by simp
  finally show ?thesis .
qed

lemma frequency_in_range:
  assumes f: "f = PyInt n \<and> v = of_int n \<or> f = PyFraction v \<or> f = PyFloat (Finite v)"
    and v: "\<bar>v\<bar> \<le> 2 ^ 1022" and r: "1 \<le> r" "r < 2"
  shows "\<exists>m. 1 \<le> m \<and> m \<le> 2 \<and>
    (case py_mul (PyFraction r) f of Inl e \<Rightarrow> Inl e | Inr x \<Rightarrow> py_float x) =
      Inr (Finite (round_binary64 (m * v)))"
proof -
  have r2: "r \<le> 2" using r by simp
  from f consider "f = PyInt n" "v = of_int n" | "f = PyFraction v" | "f = PyFloat (Finite v)"
    by blast
  then show ?thesis
  proof cases
    case 1
    have "\<bar>round_binary64 (r * of_int n)\<bar> < 2 ^ 1024"
      using scaled_in_range [OF r(1) r2 v] unfolding 1 by (rule round_binary64_in_range)
    then have "(case py_mul (PyFraction r) f of Inl e \<Rightarrow> Inl e | Inr x \<Rightarrow> py_float x) =
      Inr (Finite (round_binary64 (r * v)))"
      unfolding 1 frequency_int by simp
    with r(1) r2 show ?thesis by blast
  next
    case 2
    have "\<bar>round_binary64 (r * v)\<bar> < 2 ^ 1024"
      using scaled_in_range [OF r(1) r2 v] by (rule round_binary64_in_range)
    then have "(case py_mul (PyFraction r) f of Inl e \<Rightarrow> Inl e | Inr x \<Rightarrow> py_float x) =
      Inr (Finite (round_binary64 (r * v)))"
      unfolding 2 frequency_fraction by simp
    with r(1) r2 show ?thesis by blast
  next
    case 3
    have m: "1 \<le> round_binary64 r" "round_binary64 r \<le> 2"
      using round_binary64_octave [OF r] by simp_all
    have "float_mul (Finite (round_binary64 r)) (Finite v) =
        Finite (round_binary64 (round_binary64 r * v))"
      using scaled_in_range [OF m v] by (simp add: float_of_exact_finite)
    then have "(case py_mul (PyFraction r) f of Inl e \<Rightarrow> Inl e | Inr x \<Rightarrow> py_float x) =
      Inr (Finite (round_binary64 (round_binary64 r * v)))"
      unfolding 3 frequency_float [OF r] by simp
    with m show ?thesis by blast
  qed
qed

lemma scaled_round_sign:
  fixes m v :: rat
  assumes "1 \<le> m" and "m \<le> 2" and "\<bar>v\<bar> \<le> 2 ^ 1022"
  shows "\<bar>round_binary64 (m * v)\<bar> < 2 ^ 1024"
    and "2 powi (- 1074) \<le> v \<Longrightarrow> 0 < round_binary64 (m * v)"
    and "v = 0 \<Longrightarrow> round_binary64 (m * v) = 0"
    and "v < 0 \<Longrightarrow> round_binary64 (m * v) \<le> 0"
proof -
  show "\<bar>round_binary64 (m * v)\<bar> < 2 ^ 1024"
    using scaled_in_range [OF assms] by (rule round_binary64_in_range)
  show "0 < round_binary64 (m * v)" if "2 powi (- 1074) \<le> v"
  proof -
    have "0 \<le> v" using that powi2_pos [of "- 1074"] by linarith
    then have "1 * v \<le> m * v" using assms(1) by (intro mult_right_mono) simp_all
    then have "v \<le> m * v" by (simp only: mult_1)
    with that have "2 powi (- 1074) \<le> m * v" by (rule order_trans)
    then have "2 powi (- 1074) \<le> round_binary64 (m * v)"
      by (intro round_binary64_ge_powi) simp_all
    then show ?thesis using powi2_pos [of "- 1074"] by linarith
  qed
  show "round_binary64 (m * v) = 0" if "v = 0"
    using that by (simp add: round_binary64_0)
  show "round_binary64 (m * v) \<le> 0" if "v < 0"
  proof -
    have "m * v \<le> 0" using that assms(1) by (simp add: mult_nonneg_nonpos)
    from round_binary64_mono [OF this] show ?thesis by (simp add: round_binary64_0)
  qed
qed

lemma construction_in_range:
  assumes p: "py_mul fundamental0 octave = Inr f"
    and f: "f = PyInt n \<and> v = of_int n \<or> f = PyFraction v \<or> f = PyFloat (Finite v)"
    and v: "\<bar>v\<bar> \<le> 2 ^ 1022"
  shows "\<exists>s. PythagoreanSystem fundamental0 octave = Inr s \<and> fundamental s = f \<and>
     ratios s = sorted_generated \<and> length (frequencies s) = 53 \<and>
     (\<forall>i<53. \<exists>m. 1 \<le> m \<and> m \<le> 2 \<and> frequencies s ! i = Finite (round_binary64 (m * v)))"
proof -
  have "\<exists>y. (case py_mul (PyFraction r) f of Inl e \<Rightarrow> Inl e | Inr x \<Rightarrow> py_float x) = Inr y"
    if "r \<in> set sorted_generated" for r
  proof -
    have "1 \<le> r" "r < 2"
      using that generate_ratios_set_range by (simp_all add: sorted_generated_set)
    from frequency_in_range [OF f v this] show ?thesis by blast
  qed
  then have "\<exists>fs. calculate_frequencies f sorted_generated = Inr fs"
    unfolding calculate_frequencies_def by (rule map_result_total)
  then obtain fs where fs: "calculate_frequencies f sorted_generated = Inr fs" ..
  define s where "s = \<lparr>fundamental = f, ratios = sorted_generated, frequencies = fs\<rparr>"
  have s: "PythagoreanSystem fundamental0 octave = Inr s"
    by (simp add: PythagoreanSystem_unfold p fs s_def)
  have "\<exists>m. 1 \<le> m \<and> m \<le> 2 \<and> fs ! i = Finite (round_binary64 (m * v))" if "i < 53" for i
  proof -
    have r: "1 \<le> sorted_generated ! i" "sorted_generated ! i < 2"
      using sorted_generated_range [OF that] by simp_all
    from frequency_in_range [OF f v r] frequencies_nth [OF fs that]
    show ?thesis by auto
  qed
  then show ?thesis
    using s frequencies_length [OF fs] by (auto simp: s_def)
qed

subsection \<open>The default configurations\<close>

lemma default_system:
  "\<exists>s. PythagoreanSystem (PyInt 100) (PyInt 1) = Inr s \<and> fundamental s = PyInt 100 \<and>
     ratios s = sorted_generated \<and> length (frequencies s) = 53 \<and>
     (\<forall>i<53. frequencies s ! i = Finite (round_binary64 (sorted_generated ! i * 100)))"
proof -
  have p: "py_mul (PyInt 100) (PyInt 1) = Inr (PyInt 100)" by simp
  have f: "PyInt 100 = PyInt 100 \<and> (100::rat) = of_int 100 \<or> PyInt 100 = PyFraction 100 \<or>
      PyInt 100 = PyFloat (Finite 100)" by simp
  have v: "\<bar>100 :: rat\<bar> \<le> 2 ^ 1022" by simp
  from construction_in_range [OF p f v] obtain s
    where s: "PythagoreanSystem (PyInt 100) (PyInt 1) = Inr s" "fundamental s = PyInt 100"
      "ratios s = sorted_generated" "length (frequencies s) = 53" by blast
  have "frequencies s ! i = Finite (round_binary64 (sorted_generated ! i * 100))" if "i < 53" for i
    using frequencies_nth_int [OF PythagoreanSystem_Inr(3) [OF s(1), unfolded s(2)] that] by simp
  with s show ?thesis by blast
qed

lemma default_sistema:
  "\<exists>t. SistemaPitagorico (PyInt 32) (PyInt 2) = Inr t \<and> fondamentale t = PyInt 64 \<and>
     rapporti t = sorted_generated \<and> length (frequenze t) = 53 \<and>
     (\<forall>i<53. frequenze t ! i = Finite (round_binary64 (sorted_generated ! i * 64)))"
proof -
  have p: "py_mul (PyInt 32) (PyInt 2) = Inr (PyInt 64)" by simp
  have f: "PyInt 64 = PyInt 64 \<and> (64::rat) = of_int 64 \<or> PyInt 64 = PyFraction 64 \<or>
      PyInt 64 = PyFloat (Finite 64)" by simp
  have v: "\<bar>64 :: rat\<bar> \<le> 2 ^ 1022" by simp
  from construction_in_range [OF p f v] obtain s
    where s: "PythagoreanSystem (PyInt 32) (PyInt 2) = Inr s" "fundamental s = PyInt 64"
      "ratios s = sorted_generated" "length (frequencies s) = 53" by blast
  define t where "t = \<lparr>fondamentale = fundamental s, rapporti = ratios s,
      frequenze = frequencies s\<rparr>"
  have t: "SistemaPitagorico (PyInt 32) (PyInt 2) = Inr t"
    by (simp add: SistemaPitagorico_PythagoreanSystem s(1) t_def)
  have "frequencies s ! i = Finite (round_binary64 (sorted_generated ! i * 64))" if "i < 53" for i
    using frequencies_nth_int [OF PythagoreanSystem_Inr(3) [OF s(1), unfolded s(2)] that] by simp
  with s t show ?thesis by (auto simp: t_def)
qed

lemma round_binary64_100: "round_binary64 100 = 100"
  using round_binary64_int [of 100] by simp

subsection \<open>A fundamental out of the float range\<close>


section \<open>The edges of the float range and the errors of the constructor\<close>

subsection \<open>The edges of the float range\<close>










text \<open>The rounding error in the whole range.\<close>

lemma round_binary64_error_any:
  "\<bar>round_binary64 x - x\<bar> \<le> \<bar>x\<bar> / 2 ^ 53 + 2 powi (- 1075)"
proof (cases "2 powi (- 1022) \<le> \<bar>x\<bar>")
  case True
  from round_binary64_error [OF this] powi2_pos [of "- 1075"] show ?thesis by linarith
next
  case False
  have small: "\<bar>round_binary64 y - y\<bar> \<le> 2 powi (- 1075)"
    if y: "0 < y" "y < 2 powi (- 1022)" for y
  proof -
    have "2 powi floor_log2 y < (2::rat) powi (- 1022)"
      using floor_log2_bounds [OF y(1)] y(2) by linarith
    then have "floor_log2 y < - 1022" by (rule powi2_less_imp)
    then have m: "max (floor_log2 y) (- 1022) - 52 = - 1074" by simp
    define q :: rat where "q = 2 powi (- 1074)"
    have q: "0 < q" unfolding q_def by simp
    have r: "round_binary64 y = of_int (round_half_even (y / q)) * q"
      unfolding round_binary64_pos [OF y(1)] m q_def ..
    have "\<bar>of_int (round_half_even (y / q)) - y / q\<bar> \<le> 1 / 2"
      using round_half_even_bounds [of "y / q"] by linarith
    then have "\<bar>of_int (round_half_even (y / q)) - y / q\<bar> * q \<le> 1 / 2 * q"
      using q by (intro mult_right_mono) simp_all
    moreover have "\<bar>of_int (round_half_even (y / q)) - y / q\<bar> * q = \<bar>round_binary64 y - y\<bar>"
    proof -
      have "\<bar>of_int (round_half_even (y / q)) - y / q\<bar> * q =
          \<bar>(of_int (round_half_even (y / q)) - y / q) * q\<bar>"
        using q by (simp add: abs_mult)
      also have "(of_int (round_half_even (y / q)) - y / q) * q = round_binary64 y - y"
        using q by (simp add: r left_diff_distrib)
      finally show ?thesis .
    qed
    moreover have "1 / 2 * q = 2 powi (- 1075)"
    proof -
      have "2 powi (- 1) * 2 powi (- 1074) = (2::rat) powi (- 1075)"
        by (rule powi2_mult_eq) simp
      then show ?thesis by (simp add: q_def)
    qed
    ultimately show ?thesis by simp
  qed
  have "\<bar>round_binary64 x - x\<bar> \<le> 2 powi (- 1075)"
  proof -
    consider "x = 0" | "0 < x" | "x < 0" by linarith
    then show ?thesis
    proof cases
      case 1
      then show ?thesis by (simp add: round_binary64_0)
    next
      case 2
      then show ?thesis using False by (intro small) simp_all
    next
      case 3
      then have "\<bar>round_binary64 (- x) - (- x)\<bar> \<le> 2 powi (- 1075)"
        using False by (intro small) simp_all
      moreover have "\<bar>round_binary64 (- x) - (- x)\<bar> = \<bar>round_binary64 x - x\<bar>"
        unfolding round_binary64_minus by (simp add: abs_minus_commute)
      ultimately show ?thesis by simp
    qed
  qed
  moreover have "0 \<le> \<bar>x\<bar> / 2 ^ 53" by simp
  ultimately show ?thesis by linarith
qed


subsection \<open>Which element functions raise\<close>









subsection \<open>The largest ratio\<close>




subsection \<open>A frequency from an int or a Fraction\<close>



subsection \<open>When the constructor returns\<close>






section \<open>Claims about the generator\<close>

text \<open>
  C1: the generator returns 53 ratios and each of them lies in the half-open
  interval from 1 to 2; only the first one, the unison, is equal to 1. The same holds for
  \<open>genera_rapporti\<close>.
\<close>

theorem generate_ratios_within_octave:
  "length generate_ratios = 53 \<and> length genera_rapporti = 53 \<and>
   (\<forall>i<53. 1 \<le> generate_ratios ! i \<and> generate_ratios ! i < 2 \<and>
            (generate_ratios ! i = 1 \<longleftrightarrow> i = 0)) \<and>
   (\<forall>i<53. 1 \<le> genera_rapporti ! i \<and> genera_rapporti ! i < 2 \<and>
            (genera_rapporti ! i = 1 \<longleftrightarrow> i = 0))"
  by (simp add: genera_rapporti_eq generate_ratios_length generate_ratios_range
      generate_ratios_unison)

theorem generate_ratios_within_octave_witness:
  "(1::nat) < 53 \<and> generate_ratios ! 1 = 3 / 2 \<and>
   1 \<le> generate_ratios ! 1 \<and> generate_ratios ! 1 < 2 \<and> generate_ratios ! 1 \<noteq> 1"
proof -
  have "reduce_octave (1 * fifth_ratio) = 3 / 2"
    by (simp add: reduce_octave.simps [of "3 / 2"] fifth_ratio_def Fract_of_int_quotient)
  then have "generate_ratios ! 1 = 3 / 2"
    using generate_ratios_step [of 0] by (simp add: generate_ratios_first)
  then show ?thesis
    using generate_ratios_within_octave by simp
qed

text \<open>
  C4: before sorting the sequence has 53 entries, they are pairwise distinct, exactly
  one of them is 1/1 and the other 52 are not.
\<close>

theorem generate_ratios_distinct_unison:
  "length generate_ratios = 53 \<and> distinct generate_ratios \<and>
   length (filter (\<lambda>r. r = 1) generate_ratios) = 1 \<and>
   length (filter (\<lambda>r. r \<noteq> 1) generate_ratios) = 52"
proof -
  have one: "1 \<in> set generate_ratios"
    using generate_ratios_first nth_mem [of 0 generate_ratios]
    by (simp add: generate_ratios_length)
  have "{x. x = 1} \<inter> set generate_ratios = {1::rat}" using one by auto
  then have a: "length (filter (\<lambda>r. r = 1) generate_ratios) = 1"
    by (simp add: distinct_length_filter [OF generate_ratios_distinct])
  have "length (filter (\<lambda>r. r = 1) generate_ratios) +
        length (filter (\<lambda>r. \<not> r = 1) generate_ratios) = length generate_ratios"
    by (rule sum_length_filter_compl)
  with a have "length (filter (\<lambda>r. r \<noteq> 1) generate_ratios) = 52"
    by (simp add: generate_ratios_length)
  with a show ?thesis by (simp add: generate_ratios_length generate_ratios_distinct)
qed

text \<open>
  C8: a ratio in the octave multiplied by the fifth stays below 4, so the reduction
  loop halves it at most once and its result is again in the octave; this is the case in
  each of the 52 steps of the generator.
\<close>

theorem at_most_one_halving:
  "(\<forall>x. 1 \<le> x \<and> x < 2 \<longrightarrow>
      x * fifth_ratio < 4 \<and>
      reduce_octave_iterations (x * fifth_ratio) \<le> 1 \<and>
      reduce_octave (x * fifth_ratio) =
        x * fifth_ratio / 2 ^ reduce_octave_iterations (x * fifth_ratio) \<and>
      1 \<le> reduce_octave (x * fifth_ratio) \<and> reduce_octave (x * fifth_ratio) < 2) \<and>
   (\<forall>k<52. generate_ratios ! Suc k = reduce_octave (generate_ratios ! k * fifth_ratio) \<and>
            genera_rapporti ! Suc k = reduce_octave (genera_rapporti ! k * fifth_ratio) \<and>
            reduce_octave_iterations (generate_ratios ! k * fifth_ratio) \<le> 1)"
proof -
  have one: "x * fifth_ratio < 4 \<and>
      reduce_octave_iterations (x * fifth_ratio) \<le> 1 \<and>
      reduce_octave (x * fifth_ratio) =
        x * fifth_ratio / 2 ^ reduce_octave_iterations (x * fifth_ratio) \<and>
      1 \<le> reduce_octave (x * fifth_ratio) \<and> reduce_octave (x * fifth_ratio) < 2"
    if "1 \<le> x" and "x < 2" for x
  proof -
    have lt: "x * fifth_ratio < 4" and ge: "1 \<le> x * fifth_ratio"
      using that by (simp_all add: fifth_ratio_def Fract_of_int_quotient)
    show ?thesis
      using lt reduce_octave_below_4 [OF lt] reduce_octave_range [OF ge]
        reduce_octave_iterations_eq [of "x * fifth_ratio"] by simp
  qed
  have two: "reduce_octave_iterations (generate_ratios ! k * fifth_ratio) \<le> 1"
    if "k < 52" for k
  proof -
    have "k < 53" using that by simp
    from generate_ratios_range [OF this] show ?thesis using one by blast
  qed
  have three: "\<forall>k<52. generate_ratios ! Suc k = reduce_octave (generate_ratios ! k * fifth_ratio) \<and>
            genera_rapporti ! Suc k = reduce_octave (genera_rapporti ! k * fifth_ratio) \<and>
            reduce_octave_iterations (generate_ratios ! k * fifth_ratio) \<le> 1"
    using two by (simp add: genera_rapporti_eq generate_ratios_step)
  from one have "\<forall>x. 1 \<le> x \<and> x < 2 \<longrightarrow>
      x * fifth_ratio < 4 \<and>
      reduce_octave_iterations (x * fifth_ratio) \<le> 1 \<and>
      reduce_octave (x * fifth_ratio) =
        x * fifth_ratio / 2 ^ reduce_octave_iterations (x * fifth_ratio) \<and>
      1 \<le> reduce_octave (x * fifth_ratio) \<and> reduce_octave (x * fifth_ratio) < 2"
    by blast
  with three show ?thesis by (rule conjI [rotated])
qed

theorem at_most_one_halving_witness:
  "(1::rat) \<le> 3 / 2 \<and> (3 / 2 :: rat) < 2 \<and>
   reduce_octave_iterations (3 / 2 * fifth_ratio) = 1 \<and>
   reduce_octave (3 / 2 * fifth_ratio) = 9 / 8"
proof -
  have e: "3 / 2 * fifth_ratio = 9 / 4"
    by (simp add: fifth_ratio_def Fract_of_int_quotient)
  have "reduce_octave_iterations (9 / 4) \<noteq> 0"
    by (simp add: reduce_octave_iterations.simps [of "9 / 4"])
  moreover note h = at_most_one_halving [THEN conjunct1, rule_format, of "3 / 2", unfolded e]
  moreover have "reduce_octave_iterations (9 / 4) \<le> 1"
    using h by simp
  ultimately have i: "reduce_octave_iterations (9 / 4) = 1" by simp
  have "reduce_octave (9 / 4) = 9 / 4 / 2 ^ reduce_octave_iterations (9 / 4)"
    using h by simp
  then show ?thesis unfolding e by (simp add: i)
qed

text \<open>
  C10: the entry of index \<open>k\<close> of the generated sequence has numerator \<open>3 ^ k\<close> and a
  power of two as denominator; the denominator is positive and coprime to the numerator.
\<close>

theorem generate_ratios_lowest_terms:
  "\<forall>k<53. numerator (generate_ratios ! k) = 3 ^ k \<and>
           (\<exists>m. denominator (generate_ratios ! k) = 2 ^ m) \<and>
           0 < denominator (generate_ratios ! k) \<and>
           coprime (numerator (generate_ratios ! k)) (denominator (generate_ratios ! k)) \<and>
           genera_rapporti ! k = generate_ratios ! k"
proof (intro allI impI)
  fix k :: nat
  assume k: "k < 53"
  from generate_ratios_quotient [OF k] obtain m
    where m: "quotient_of (generate_ratios ! k) = (3 ^ k, 2 ^ m)" ..
  have "coprime (fst (quotient_of (generate_ratios ! k))) (snd (quotient_of (generate_ratios ! k)))"
    by (rule quotient_of_coprime) simp
  moreover have "0 < snd (quotient_of (generate_ratios ! k))"
    by (rule quotient_of_denom_pos') 
  moreover have "snd (quotient_of (generate_ratios ! k)) = 2 ^ m" by (simp add: m)
  then have "\<exists>m. snd (quotient_of (generate_ratios ! k)) = 2 ^ m" ..
  ultimately show "numerator (generate_ratios ! k) = 3 ^ k \<and>
           (\<exists>m. denominator (generate_ratios ! k) = 2 ^ m) \<and>
           0 < denominator (generate_ratios ! k) \<and>
           coprime (numerator (generate_ratios ! k)) (denominator (generate_ratios ! k)) \<and>
           genera_rapporti ! k = generate_ratios ! k"
    unfolding numerator_def denominator_def
    by (simp add: genera_rapporti_eq generate_ratios_numerator [OF k, unfolded numerator_def])
qed

theorem generate_ratios_lowest_terms_witness:
  "(1::nat) < 53 \<and> numerator (generate_ratios ! 1) = 3 \<and>
   denominator (generate_ratios ! 1) = 2 \<and>
   coprime (numerator (generate_ratios ! 1)) (denominator (generate_ratios ! 1))"
proof -
  have "reduce_octave (1 * fifth_ratio) = 3 / 2"
    by (simp add: reduce_octave.simps [of "3 / 2"] fifth_ratio_def Fract_of_int_quotient)
  then have "generate_ratios ! 1 = 3 / 2"
    using generate_ratios_step [of 0] by (simp add: generate_ratios_first)
  then have "generate_ratios ! 1 = Fract 3 2" by (simp add: Fract_of_int_quotient)
  then have "denominator (generate_ratios ! 1) = 2"
    by (simp add: denominator_def quotient_of_Fract)
  then show ?thesis
    using generate_ratios_lowest_terms [rule_format, of 1] by simp
qed

section \<open>Claims about the sorter\<close>

text \<open>
  C2: sorting the 53 generated ratios succeeds and leaves them in non-decreasing order
  of their exact values, although the sort compares the float keys
  \<open>numerator / denominator\<close>; \<open>ordina_rapporti\<close> gives the same list.
\<close>

theorem sort_ratios_non_decreasing:
  "\<exists>rs. sort_ratios generate_ratios = Inr rs \<and> ordina_rapporti genera_rapporti = Inr rs \<and>
        length rs = 53 \<and> sorted rs \<and> (\<forall>i. Suc i < 53 \<longrightarrow> rs ! i \<le> rs ! Suc i)"
proof -
  let ?S = "sort_key round_binary64 generate_ratios"
  have "\<forall>i. Suc i < 53 \<longrightarrow> ?S ! i \<le> ?S ! Suc i"
    using sorted_sort_key_generate
    by (auto simp: sorted_iff_nth_mono generate_ratios_length)
  then show ?thesis
    using sorted_sort_key_generate
    by (simp add: sort_ratios_generate ordina_rapporti_eq genera_rapporti_eq generate_ratios_length)
qed

theorem sort_ratios_non_decreasing_witness:
  "Suc 0 < 53 \<and> (\<exists>rs. sort_ratios generate_ratios = Inr rs \<and> rs ! 0 \<le> rs ! Suc 0)"
  using sort_ratios_non_decreasing by auto

text \<open>
  C3: the sorted list is a permutation of the list it was given: the multiset of exact
  values and the length are unchanged; for the generated sequence the length stays 53.
\<close>

theorem sort_ratios_permutation:
  "(\<forall>xs rs. sort_ratios xs = Inr rs \<longrightarrow> mset rs = mset xs \<and> length rs = length xs) \<and>
   (\<exists>rs. sort_ratios generate_ratios = Inr rs \<and> mset rs = mset generate_ratios \<and>
         set rs = set generate_ratios \<and> length rs = 53)"
proof -
  have "mset rs = mset xs \<and> length rs = length xs" if "sort_ratios xs = Inr rs" for xs rs
    using sort_ratios_permutes [OF that] mset_eq_length [of rs xs] by simp
  then have "\<forall>xs rs. sort_ratios xs = Inr rs \<longrightarrow> mset rs = mset xs \<and> length rs = length xs"
    by blast
  moreover have "\<exists>rs. sort_ratios generate_ratios = Inr rs \<and> mset rs = mset generate_ratios \<and>
         set rs = set generate_ratios \<and> length rs = 53"
    by (simp add: sort_ratios_generate generate_ratios_length)
  ultimately show ?thesis by (rule conjI)
qed

theorem sort_ratios_permutation_witness:
  "\<exists>rs. sort_ratios [3 / 2, 1] = Inr rs \<and> rs = [1, 3 / 2] \<and> mset rs = mset [3 / 2, 1]"
proof -
  have k1: "ratio_key 1 = Inr (round_binary64 1)" by (rule ratio_key_octave) simp_all
  have k2: "ratio_key (3 / 2) = Inr (round_binary64 (3 / 2))" by (rule ratio_key_octave) simp_all
  have "round_binary64 1 < round_binary64 (3 / 2)" by (rule round_binary64_separates) simp_all
  then have "sort_ratios [3 / 2, 1] = Inr [1, 3 / 2]"
    by (simp add: sort_ratios_def k1 k2)
  then show ?thesis
    using sort_ratios_permutation [THEN conjunct1, rule_format, of "[3 / 2, 1]" "[1, 3 / 2]"]
    by simp
qed

section \<open>Claims about the frequencies and the configuration\<close>



text \<open>
  C6: the sorted ratios do not depend on the configuration: any two constructions that
  return hold the same ratios, in either class. The two default configurations return,
  with fundamentals 100 and 64, the same ratios, and frequencies scaled by 100 and by 64.
\<close>

theorem ratios_independent_of_configuration:
  "(\<forall>f0 oc f0' oc' s s'.
      PythagoreanSystem f0 oc = Inr s \<and> PythagoreanSystem f0' oc' = Inr s' \<longrightarrow>
      ratios s = ratios s') \<and>
   (\<forall>f0 oc f0' oc' s t.
      PythagoreanSystem f0 oc = Inr s \<and> SistemaPitagorico f0' oc' = Inr t \<longrightarrow>
      rapporti t = ratios s) \<and>
   genera_rapporti = generate_ratios \<and>
   (\<exists>s t. PythagoreanSystem_default = Inr s \<and> SistemaPitagorico_default = Inr t \<and>
      fundamental s = PyInt 100 \<and> fondamentale t = PyInt 64 \<and>
      rapporti t = ratios s \<and> length (ratios s) = 53 \<and>
      (\<forall>i<53. frequencies s ! i = Finite (round_binary64 (ratios s ! i * 100)) \<and>
               frequenze t ! i = Finite (round_binary64 (ratios s ! i * 64))))"
proof -
  have a: "\<forall>f0 oc f0' oc' s s'.
      PythagoreanSystem f0 oc = Inr s \<and> PythagoreanSystem f0' oc' = Inr s' \<longrightarrow>
      ratios s = ratios s'"
    using PythagoreanSystem_Inr(2) by auto
  have b: "\<forall>f0 oc f0' oc' s t.
      PythagoreanSystem f0 oc = Inr s \<and> SistemaPitagorico f0' oc' = Inr t \<longrightarrow>
      rapporti t = ratios s"
    using PythagoreanSystem_Inr(2) SistemaPitagorico_Inr(2) by auto
  from default_system obtain s
    where s: "PythagoreanSystem (PyInt 100) (PyInt 1) = Inr s" "fundamental s = PyInt 100"
      "ratios s = sorted_generated"
      "\<forall>i<53. frequencies s ! i = Finite (round_binary64 (sorted_generated ! i * 100))"
    by blast
  from default_sistema obtain t
    where t: "SistemaPitagorico (PyInt 32) (PyInt 2) = Inr t" "fondamentale t = PyInt 64"
      "rapporti t = sorted_generated"
      "\<forall>i<53. frequenze t ! i = Finite (round_binary64 (sorted_generated ! i * 64))"
    by blast
  have "PythagoreanSystem_default = Inr s \<and> SistemaPitagorico_default = Inr t \<and>
      fundamental s = PyInt 100 \<and> fondamentale t = PyInt 64 \<and>
      rapporti t = ratios s \<and> length (ratios s) = 53 \<and>
      (\<forall>i<53. frequencies s ! i = Finite (round_binary64 (ratios s ! i * 100)) \<and>
               frequenze t ! i = Finite (round_binary64 (ratios s ! i * 64)))"
    using s t
    by (simp add: PythagoreanSystem_default_def SistemaPitagorico_default_def
        sorted_generated_length)
  then have c: "\<exists>s t. PythagoreanSystem_default = Inr s \<and> SistemaPitagorico_default = Inr t \<and>
      fundamental s = PyInt 100 \<and> fondamentale t = PyInt 64 \<and>
      rapporti t = ratios s \<and> length (ratios s) = 53 \<and>
      (\<forall>i<53. frequencies s ! i = Finite (round_binary64 (ratios s ! i * 100)) \<and>
               frequenze t ! i = Finite (round_binary64 (ratios s ! i * 64)))"
    by blast
  from a b genera_rapporti_eq c show ?thesis by blast
qed

theorem ratios_independent_of_configuration_witness:
  "\<exists>s t. PythagoreanSystem (PyInt 100) (PyInt 1) = Inr s \<and>
         SistemaPitagorico (PyInt 32) (PyInt 2) = Inr t \<and>
         rapporti t = ratios s \<and> ratios s ! 0 = 1 \<and>
         frequencies s ! 0 = Finite 100 \<and> frequenze t ! 0 = Finite 64"
proof -
  from default_system obtain s
    where s: "PythagoreanSystem (PyInt 100) (PyInt 1) = Inr s" "ratios s = sorted_generated"
      "\<forall>i<53. frequencies s ! i = Finite (round_binary64 (sorted_generated ! i * 100))"
    by blast
  from default_sistema obtain t
    where t: "SistemaPitagorico (PyInt 32) (PyInt 2) = Inr t"
      "\<forall>i<53. frequenze t ! i = Finite (round_binary64 (sorted_generated ! i * 64))"
    by blast
  have "rapporti t = ratios s"
    using ratios_independent_of_configuration s(1) t(1) by blast
  moreover have "frequencies s ! 0 = Finite 100"
    using s(3) by (simp add: sorted_generated_first round_binary64_100)
  moreover have "frequenze t ! 0 = Finite 64"
    using t(2) round_binary64_int [of 64] by (simp add: sorted_generated_first)
  ultimately show ?thesis using s(1,2) t(1) by (auto simp: sorted_generated_first)
qed

text \<open>
  C7: with the defaults \<open>fundamental=100, octave=1\<close> the effective fundamental is 100, the
  first sorted ratio is 1/1 and its frequency is exactly 100.0; the last ratio is the
  largest generated one, \<open>3 ^ 41 / 2 ^ 64\<close>, below 2, and the last frequency is below 200.0.
\<close>

theorem default_first_and_last:
  "\<exists>s. PythagoreanSystem_default = Inr s \<and> fundamental s = PyInt 100 \<and>
       ratios s ! 0 = Fract 1 1 \<and> frequencies s ! 0 = Finite 100 \<and>
       last (ratios s) = Max (set generate_ratios) \<and>
       last (ratios s) = 36472996377170786403 / 18446744073709551616 \<and>
       last (ratios s) < 2 \<and>
       (\<exists>y. last (frequencies s) = Finite y \<and> 197 \<le> y \<and> y < 200)"
proof -
  from default_system obtain s
    where s: "PythagoreanSystem (PyInt 100) (PyInt 1) = Inr s" "fundamental s = PyInt 100"
      "ratios s = sorted_generated" "length (frequencies s) = 53"
      "\<forall>i<53. frequencies s ! i = Finite (round_binary64 (sorted_generated ! i * 100))"
    by blast
  define L :: rat where "L = 36472996377170786403 / 18446744073709551616"
  have d: "PythagoreanSystem_default = Inr s" by (simp add: PythagoreanSystem_default_def s(1))
  have first: "ratios s ! 0 = Fract 1 1"
    by (simp add: s(3) sorted_generated_first One_rat_def)
  have f0: "frequencies s ! 0 = Finite 100"
    using s(5) by (simp add: sorted_generated_first round_binary64_100)
  have lmax: "last (ratios s) = Max (set generate_ratios)"
    by (simp only: s(3) sorted_generated_last)
  then have l: "last (ratios s) = L" by (simp only: generate_ratios_Max L_def)
  have l2: "L < 2" by (simp add: L_def)
  have ne: "sorted_generated \<noteq> []" using sorted_generated_length by auto
  have "sorted_generated ! 52 = last sorted_generated"
    using ne by (simp add: last_conv_nth sorted_generated_length)
  then have l52: "sorted_generated ! 52 = L" using l by (simp only: s(3))
  have "frequencies s \<noteq> []" using s(4) by auto
  then have "last (frequencies s) = frequencies s ! 52"
    by (simp add: last_conv_nth s(4))
  also have "\<dots> = Finite (round_binary64 (L * 100))" using s(5) by (simp add: l52)
  finally have lf: "last (frequencies s) = Finite (round_binary64 (L * 100))" .
  have "of_int 197 \<le> L * 100" and "L * 100 \<le> of_int 199" by (simp_all add: L_def)
  then have "round_binary64 (of_int 197) \<le> round_binary64 (L * 100)"
    and "round_binary64 (L * 100) \<le> round_binary64 (of_int 199)"
    by (simp_all only: round_binary64_mono)
  moreover have "round_binary64 (of_int 197) = of_int 197" by (rule round_binary64_int) simp
  moreover have "round_binary64 (of_int 199) = of_int 199" by (rule round_binary64_int) simp
  ultimately have "197 \<le> round_binary64 (L * 100)" and "round_binary64 (L * 100) < 200"
    by simp_all
  with lf have y: "\<exists>y. last (frequencies s) = Finite y \<and> 197 \<le> y \<and> y < 200" by blast
  have l': "last (ratios s) < 2" using l l2 by (simp only:)
  show ?thesis
  proof (rule exI [of _ s], intro conjI)
    show "PythagoreanSystem_default = Inr s" by (fact d)
    show "fundamental s = PyInt 100" by (fact s(2))
    show "ratios s ! 0 = Fract 1 1" by (fact first)
    show "frequencies s ! 0 = Finite 100" by (fact f0)
    show "last (ratios s) = Max (set generate_ratios)" by (fact lmax)
    show "last (ratios s) = 36472996377170786403 / 18446744073709551616"
      using l unfolding L_def .
    show "last (ratios s) < 2" by (fact l')
    show "\<exists>y. last (frequencies s) = Finite y \<and> 197 \<le> y \<and> y < 200" by (fact y)
  qed
qed




end
